theory Spec2Isabelle
  imports Main "HOL-Library.Multiset"
begin

section \<open>Shortest alternating paths (src/dsa.cpp)\<close>

text \<open>
  The repository is one C++ member function, \<open>Solution::shortestAlternatingPaths\<close>.
  It is embedded as it is written: the vectors are HOL lists, the \<open>int\<close> values are
  HOL integers with \<open>INT_MAX\<close> written out, and every access that the C++ abstract
  machine leaves undefined (an index outside a vector, \<open>currentDistance + 1\<close> beyond
  \<open>INT_MAX\<close>) or answers with an exception (a negative vector size) is a branch that
  returns an \<open>error\<close>.
\<close>

subsection \<open>Data\<close>

datatype error =
    LengthError      \<comment> \<open>\<open>std::vector\<close> constructed with a negative size\<close>
  | OutOfBounds      \<comment> \<open>\<open>operator[]\<close> outside the vector: undefined behaviour\<close>
  | SignedOverflow   \<comment> \<open>\<open>int\<close> addition beyond \<open>INT_MAX\<close>: undefined behaviour\<close>

definition INT_MAX :: int where
  "INT_MAX = 2147483647"

text \<open>\<open>vector<int>\<close>: one edge, read at \<open>[0]\<close> and \<open>[1]\<close>.\<close>
type_synonym edge = "int list"

text \<open>\<open>vector<vector<pair<int,int>>>\<close>: for each node the pairs (destination, colour).\<close>
type_synonym adjacency = "(int \<times> int) list list"

text \<open>\<open>tuple<int,int,int>\<close>: (current node, distance, colour of the previous edge).\<close>
type_synonym entry = "int \<times> int \<times> int"

text \<open>The mutable locals of the search: \<open>visited\<close>, \<open>dist\<close> and the queue \<open>q\<close>.\<close>
type_synonym bfs_state = "bool list list \<times> int list \<times> entry list"

subsection \<open>Building the adjacency list (lines 12 to 14)\<close>

text \<open>\<open>adj[edge[0]].push_back({edge[1], color})\<close>\<close>
definition add_edge :: "int \<Rightarrow> adjacency \<Rightarrow> edge \<Rightarrow> error + adjacency" where
  "add_edge color adj edge =
     (if length edge < 1 then Inl OutOfBounds
      else if edge ! 0 < 0 \<or> int (length adj) \<le> edge ! 0 then Inl OutOfBounds
      else if length edge < 2 then Inl OutOfBounds
      else Inr (adj[nat (edge ! 0) := adj ! nat (edge ! 0) @ [(edge ! 1, color)]]))"

text \<open>\<open>for (auto& edge : edges) adj[edge[0]].push_back({edge[1], color})\<close>\<close>
fun add_edges :: "int \<Rightarrow> adjacency \<Rightarrow> edge list \<Rightarrow> error + adjacency" where
  "add_edges color adj [] = Inr adj"
| "add_edges color adj (edge # edges) =
     (case add_edge color adj edge of
        Inl err \<Rightarrow> Inl err
      | Inr adj' \<Rightarrow> add_edges color adj' edges)"

subsection \<open>The search (lines 38 to 60)\<close>

text \<open>
  The body of the inner \<open>for\<close> loop, for one pair (neighbor, edgeColor) of
  \<open>adj[currentNode]\<close>, with \<open>currentDistance\<close> and \<open>prevEdgeColor\<close> of the entry that
  was popped.
\<close>
definition visit :: "int \<Rightarrow> int \<Rightarrow> int \<times> int \<Rightarrow> bfs_state \<Rightarrow> error + bfs_state" where
  "visit currentDistance prevEdgeColor ne s =
     (case (ne, s) of ((neighbor, edgeColor), (visited, dist, q)) \<Rightarrow>
        if edgeColor \<noteq> prevEdgeColor then
          if neighbor < 0 \<or> int (length visited) \<le> neighbor then Inl OutOfBounds
          else if edgeColor < 0 \<or> int (length (visited ! nat neighbor)) \<le> edgeColor
            then Inl OutOfBounds
          else if \<not> visited ! nat neighbor ! nat edgeColor then
            if int (length dist) \<le> neighbor then Inl OutOfBounds
            else if currentDistance = INT_MAX then Inl SignedOverflow
            else Inr (visited[nat neighbor := (visited ! nat neighbor)[nat edgeColor := True]],
                      dist[nat neighbor := min (dist ! nat neighbor) (currentDistance + 1)],
                      q @ [(neighbor, currentDistance + 1, edgeColor)])
          else Inr s
        else Inr s)"

text \<open>\<open>for (auto& [neighbor, edgeColor] : adj[currentNode]) ...\<close>\<close>
fun relax :: "int \<Rightarrow> int \<Rightarrow> (int \<times> int) list \<Rightarrow> bfs_state \<Rightarrow> error + bfs_state" where
  "relax d p [] s = Inr s"
| "relax d p (ne # nes) s =
     (case visit d p ne s of
        Inl err \<Rightarrow> Inl err
      | Inr s' \<Rightarrow> relax d p nes s')"

text \<open>The number of \<open>false\<close> flags of \<open>visited\<close>: what the loop uses up.\<close>
definition unvisited :: "bool list list \<Rightarrow> nat" where
  "unvisited visited = sum_list (map (\<lambda>row. length (filter Not row)) visited)"

definition bfs_measure :: "adjacency \<times> bfs_state \<Rightarrow> nat" where
  "bfs_measure = (\<lambda>(adj, visited, dist, q). 2 * unvisited visited + length q)"

lemma unvisited_update:
  assumes "i < length visited" "j < length (visited ! i)" "\<not> visited ! i ! j"
  shows "Suc (unvisited (visited[i := (visited ! i)[j := True]])) = unvisited visited"
proof -
  have row: "Suc (length (filter Not (xs[j := True]))) = length (filter Not xs)"
    if "j < length xs" "\<not> xs ! j" for xs :: "bool list"
    using that
  proof (induction xs arbitrary: j)
    case Nil
    then show ?case by simp
  next
    case (Cons x xs)
    then show ?case by (cases j) auto
  qed
  have upd: "Suc (sum_list (map f (ys[i := y]))) = sum_list (map f ys)"
    if "i < length ys" "Suc (f y) = f (ys ! i)" for f :: "bool list \<Rightarrow> nat" and ys y
    using that
  proof (induction ys arbitrary: i)
    case Nil
    then show ?case by simp
  next
    case (Cons z zs)
    then show ?case by (cases i) auto
  qed
  show ?thesis
    unfolding unvisited_def
    by (rule upd) (use assms row in auto)
qed

lemma visit_measure:
  assumes "visit d p ne (visited, dist, q) = Inr (visited', dist', q')"
  shows "2 * unvisited visited' + length q' \<le> 2 * unvisited visited + length q"
proof (cases ne)
  case (Pair v c)
  show ?thesis
  proof (cases "c \<noteq> p \<and> \<not> visited ! nat v ! nat c")
    case True
    with assms Pair have ok: "nat v < length visited" "nat c < length (visited ! nat v)"
      and upd: "visited' = visited[nat v := (visited ! nat v)[nat c := True]]"
      and q': "q' = q @ [(v, d + 1, c)]"
      by (auto simp: visit_def split: if_splits)
    from unvisited_update [OF ok] True upd
    have "Suc (unvisited visited') = unvisited visited" by simp
    with q' show ?thesis by simp
  next
    case False
    with assms Pair show ?thesis
      by (auto simp: visit_def split: if_splits)
  qed
qed

lemma relax_measure:
  "relax d p nes (visited, dist, q) = Inr (visited', dist', q') \<Longrightarrow>
   2 * unvisited visited' + length q' \<le> 2 * unvisited visited + length q"
proof (induction nes arbitrary: visited dist q)
  case Nil
  then show ?case by simp
next
  case (Cons ne nes)
  from Cons.prems obtain v1 d1 q1 where
    1: "visit d p ne (visited, dist, q) = Inr (v1, d1, q1)"
    and 2: "relax d p nes (v1, d1, q1) = Inr (visited', dist', q')"
    by (auto split: sum.splits)
  from visit_measure [OF 1] Cons.IH [OF 2] show ?case by linarith
qed

text \<open>
  \<open>while (!q.empty()) { auto [currentNode, currentDistance, prevEdgeColor] = q.front();
  q.pop(); for (...) ... }\<close>
\<close>
function bfs :: "adjacency \<Rightarrow> bfs_state \<Rightarrow> error + bfs_state" where
  "bfs adj (visited, dist, []) = Inr (visited, dist, [])"
| "bfs adj (visited, dist, (currentNode, currentDistance, prevEdgeColor) # q) =
     (if currentNode < 0 \<or> int (length adj) \<le> currentNode then Inl OutOfBounds
      else case relax currentDistance prevEdgeColor (adj ! nat currentNode) (visited, dist, q) of
             Inl err \<Rightarrow> Inl err
           | Inr s' \<Rightarrow> bfs adj s')"
  by pat_completeness auto
termination
proof (relation "measure bfs_measure")
  show "wf (measure bfs_measure)" by simp
next
  fix adj :: adjacency and visited dist currentNode currentDistance prevEdgeColor q s'
  assume "relax currentDistance prevEdgeColor (adj ! nat currentNode) (visited, dist, q) = Inr s'"
  then show "((adj, s'), adj, visited, dist, (currentNode, currentDistance, prevEdgeColor) # q)
               \<in> measure bfs_measure"
    using relax_measure [of currentDistance prevEdgeColor "adj ! nat currentNode" visited dist q]
    by (cases s') (auto simp: bfs_measure_def)
qed

subsection \<open>The function (lines 9 to 70)\<close>

text \<open>Lines 63 to 67: every entry still at \<open>INT_MAX\<close> becomes \<open>-1\<close>.\<close>
definition unreachable_to_minus_one :: "int list \<Rightarrow> int list" where
  "unreachable_to_minus_one dist = map (\<lambda>x. if x = INT_MAX then - 1 else x) dist"

text \<open>Lines 16 to 36: \<open>dist\<close>, \<open>visited\<close> and \<open>q\<close> as the loop first sees them.\<close>
definition initial_state :: "int \<Rightarrow> bfs_state" where
  "initial_state n =
     (let dist = replicate (nat n) INT_MAX;
          visited = replicate (nat n) (replicate 2 False);
          dist = dist[0 := 0];
          q = [(0, 0, 0), (0, 0, 1)];
          visited = visited[0 := (visited ! 0)[0 := True]];
          visited = visited[0 := (visited ! 0)[1 := True]]
      in (visited, dist, q))"

definition shortestAlternatingPaths :: "int \<Rightarrow> edge list \<Rightarrow> edge list \<Rightarrow> error + int list" where
  "shortestAlternatingPaths n redEdges blueEdges =
     (if n < 0 then Inl LengthError
      else
        (case add_edges 0 (replicate (nat n) []) redEdges of
           Inl err \<Rightarrow> Inl err
         | Inr adj0 \<Rightarrow>
             (case add_edges 1 adj0 blueEdges of
                Inl err \<Rightarrow> Inl err
              | Inr adj \<Rightarrow>
                  (if n = 0 then Inl OutOfBounds
                   else
                     (case bfs adj (initial_state n) of
                        Inl err \<Rightarrow> Inl err
                      | Inr (visited, dist, q) \<Rightarrow> Inr (unreachable_to_minus_one dist))))))"

subsection \<open>The call as the caller sees it\<close>

text \<open>
  \<open>redEdges\<close> and \<open>blueEdges\<close> are non-const references: the two vectors are objects of
  the caller, and the body could write to them. The store maps the address of each
  \<open>vector<vector<int>>\<close> the caller holds to its contents; the two parameters are addresses,
  which may coincide. Lines 13 and 14 are embedded on the store: the range-\<open>for\<close> walks the
  vector found at the address, \<open>edge\<close> is its element at the current position, and the
  statement \<open>adj[edge[0]].push_back({edge[1], color})\<close> reads \<open>edge\<close> and writes \<open>adj\<close>.
  Lines 16 to 67 name only locals. A run that ends in undefined behaviour leaves no store to
  speak of.
\<close>

type_synonym address = nat

type_synonym store = "address \<Rightarrow> edge list"

text \<open>The body of the range-\<open>for\<close> at position \<open>i\<close> of the vector at address \<open>edges\<close>.\<close>
definition add_edge_ref ::
    "int \<Rightarrow> address \<Rightarrow> nat \<Rightarrow> store \<times> adjacency \<Rightarrow> error + store \<times> adjacency" where
  "add_edge_ref color edges i s =
     (case s of (st, adj) \<Rightarrow>
        (case add_edge color adj (st edges ! i) of
           Inl err \<Rightarrow> Inl err
         | Inr adj' \<Rightarrow> Inr (st, adj')))"

lemma add_edge_ref_store:
  "add_edge_ref color edges i (st, adj) = Inr (st', adj') \<Longrightarrow> st' = st"
  by (auto simp: add_edge_ref_def split: sum.splits)

text \<open>\<open>for (auto& edge : edges) ...\<close>, from position \<open>i\<close> on.\<close>
function add_edges_ref ::
    "int \<Rightarrow> address \<Rightarrow> nat \<Rightarrow> store \<times> adjacency \<Rightarrow> error + store \<times> adjacency" where
  "add_edges_ref color edges i (st, adj) =
     (if i < length (st edges) then
        (case add_edge_ref color edges i (st, adj) of
           Inl err \<Rightarrow> Inl err
         | Inr (st', adj') \<Rightarrow> add_edges_ref color edges (Suc i) (st', adj'))
      else Inr (st, adj))"
  by pat_completeness auto
termination
proof (relation "measure (\<lambda>(color, edges, i, st, adj). length (st edges) - i)")
  show "wf (measure (\<lambda>(color, edges, i, st, adj). length (st edges) - i))" by simp
next
  fix color :: int and edges i and st :: store and adj :: adjacency and x2 st' adj'
  assume i: "i < length (st edges)"
    and "add_edge_ref color edges i (st, adj) = Inr x2" and "(st', adj') = x2"
  then have "add_edge_ref color edges i (st, adj) = Inr (st', adj')" by simp
  from add_edge_ref_store [OF this] i
  show "((color, edges, Suc i, st', adj'), color, edges, i, st, adj)
          \<in> measure (\<lambda>(color, edges, i, st, adj). length (st edges) - i)"
    by simp
qed

declare add_edges_ref.simps [simp del]

definition shortestAlternatingPaths_call ::
    "int \<Rightarrow> address \<Rightarrow> address \<Rightarrow> store \<Rightarrow> error + int list \<times> store" where
  "shortestAlternatingPaths_call n redEdges blueEdges st =
     (if n < 0 then Inl LengthError
      else
        (case add_edges_ref 0 redEdges 0 (st, replicate (nat n) []) of
           Inl err \<Rightarrow> Inl err
         | Inr (st1, adj0) \<Rightarrow>
             (case add_edges_ref 1 blueEdges 0 (st1, adj0) of
                Inl err \<Rightarrow> Inl err
              | Inr (st2, adj) \<Rightarrow>
                  (if n = 0 then Inl OutOfBounds
                   else
                     (case bfs adj (initial_state n) of
                        Inl err \<Rightarrow> Inl err
                      | Inr (visited, dist, q) \<Rightarrow>
                          Inr (unreachable_to_minus_one dist, st2))))))"

subsection \<open>Variants of the distance update (the simplification the specification proposes)\<close>










subsection \<open>The search with its history\<close>

text \<open>
  The loop of lines 38 to 60 again, recording what the queue went through: \<open>pushed\<close> is
  every entry given to \<open>q.push\<close> so far, \<open>popped\<close> every entry taken by \<open>q.front(); q.pop()\<close>,
  both in order. The history is written and never read; the search itself is \<open>relax\<close> as
  above.
\<close>

record history =
  pushed :: "entry list"
  popped :: "entry list"

function bfs_history :: "adjacency \<Rightarrow> bfs_state \<Rightarrow> history \<Rightarrow> error + bfs_state \<times> history" where
  "bfs_history adj (visited, dist, []) h = Inr ((visited, dist, []), h)"
| "bfs_history adj (visited, dist, (currentNode, currentDistance, prevEdgeColor) # q) h =
     (if currentNode < 0 \<or> int (length adj) \<le> currentNode then Inl OutOfBounds
      else case relax currentDistance prevEdgeColor (adj ! nat currentNode) (visited, dist, q) of
             Inl err \<Rightarrow> Inl err
           | Inr (visited', dist', q') \<Rightarrow>
               bfs_history adj (visited', dist', q')
                 \<lparr>pushed = pushed h @ drop (length q) q',
                  popped = popped h @ [(currentNode, currentDistance, prevEdgeColor)]\<rparr>)"
  by pat_completeness auto
termination
proof (relation "measure (\<lambda>(adj, s, h). bfs_measure (adj, s))")
  show "wf (measure (\<lambda>(adj, s, h). bfs_measure (adj, s)))" by simp
next
  fix adj :: adjacency and visited dist currentNode currentDistance prevEdgeColor q
    and h :: history and s' visited' y dist' q'
  assume "relax currentDistance prevEdgeColor (adj ! nat currentNode) (visited, dist, q) = Inr s'"
    and "(visited', y) = s'" and "(dist', q') = y"
  then show "((adj, (visited', dist', q'),
               \<lparr>pushed = pushed h @ drop (length q) q',
                popped = popped h @ [(currentNode, currentDistance, prevEdgeColor)]\<rparr>),
              adj, (visited, dist, (currentNode, currentDistance, prevEdgeColor) # q), h)
               \<in> measure (\<lambda>(adj, s, h). bfs_measure (adj, s))"
    using relax_measure [of currentDistance prevEdgeColor "adj ! nat currentNode" visited dist q]
    by (auto simp: bfs_measure_def)
qed

definition shortestAlternatingPaths_history ::
    "int \<Rightarrow> edge list \<Rightarrow> edge list \<Rightarrow> error + int list \<times> bool list list \<times> history" where
  "shortestAlternatingPaths_history n redEdges blueEdges =
     (if n < 0 then Inl LengthError
      else
        (case add_edges 0 (replicate (nat n) []) redEdges of
           Inl err \<Rightarrow> Inl err
         | Inr adj0 \<Rightarrow>
             (case add_edges 1 adj0 blueEdges of
                Inl err \<Rightarrow> Inl err
              | Inr adj \<Rightarrow>
                  (if n = 0 then Inl OutOfBounds
                   else
                     (case bfs_history adj (initial_state n)
                             \<lparr>pushed = snd (snd (initial_state n)), popped = []\<rparr> of
                        Inl err \<Rightarrow> Inl err
                      | Inr ((visited, dist, q), h) \<Rightarrow>
                          Inr (unreachable_to_minus_one dist, visited, h))))))"

section \<open>What the result is measured against\<close>

text \<open>
  A coloured edge is (source, destination, colour), colour 0 for an entry of \<open>redEdges\<close>
  and 1 for an entry of \<open>blueEdges\<close>. A walk is a list of coloured edges, each starting
  where the one before it ends; it alternates when neighbouring edges differ in colour.
\<close>

type_synonym cedge = "int \<times> int \<times> int"

definition colored_edges :: "edge list \<Rightarrow> edge list \<Rightarrow> cedge set" where
  "colored_edges redEdges blueEdges =
     (\<lambda>e. (e ! 0, e ! 1, 0)) ` set redEdges \<union> (\<lambda>e. (e ! 0, e ! 1, 1)) ` set blueEdges"

fun alternating_walk :: "cedge set \<Rightarrow> int \<Rightarrow> cedge list \<Rightarrow> int \<Rightarrow> bool" where
  "alternating_walk E u [] v = (u = v)"
| "alternating_walk E u ((a, b, c) # w) v =
     ((a, b, c) \<in> E \<and> a = u \<and> (case w of [] \<Rightarrow> True | (a', b', c') # w' \<Rightarrow> c \<noteq> c') \<and>
      alternating_walk E b w v)"

definition endpoints_in_range :: "int \<Rightarrow> edge list \<Rightarrow> bool" where
  "endpoints_in_range n edges =
     (\<forall>e \<in> set edges. length e = 2 \<and> 0 \<le> e ! 0 \<and> e ! 0 < n \<and> 0 \<le> e ! 1 \<and> e ! 1 < n)"

definition valid_input :: "int \<Rightarrow> edge list \<Rightarrow> edge list \<Rightarrow> bool" where
  "valid_input n redEdges blueEdges =
     (1 \<le> n \<and> endpoints_in_range n redEdges \<and> endpoints_in_range n blueEdges)"

definition shortest_walk :: "cedge set \<Rightarrow> int \<Rightarrow> int \<Rightarrow> bool" where
  "shortest_walk E i d =
     ((\<exists>w. alternating_walk E 0 w i \<and> int (length w) = d) \<and>
      (\<forall>w. alternating_walk E 0 w i \<longrightarrow> d \<le> int (length w)))"

definition expected :: "cedge set \<Rightarrow> int \<Rightarrow> int \<Rightarrow> bool" where
  "expected E i r = (if \<exists>w. alternating_walk E 0 w i then shortest_walk E i r else r = - 1)"

text \<open>
  What the code computes on any valid input it finishes on: the least length when that
  is below \<open>INT_MAX\<close>, and \<open>-1\<close> otherwise, also for a node whose shortest alternating
  walk has exactly \<open>INT_MAX\<close> edges.
\<close>
definition capped :: "cedge set \<Rightarrow> int \<Rightarrow> int \<Rightarrow> bool" where
  "capped E i r =
     (if \<exists>w. alternating_walk E 0 w i \<and> int (length w) < INT_MAX
      then shortest_walk E i r else r = - 1)"

section \<open>Correctness of the search\<close>

text \<open>
  The search runs over states (node, colour of the edge it was entered by). \<open>reach E k s\<close>:
  state \<open>s\<close> is entered by an alternating walk of \<open>k\<close> edges from node 0; the two seeds
  stand for the empty walk.
\<close>

inductive reach :: "cedge set \<Rightarrow> int \<Rightarrow> int \<times> int \<Rightarrow> bool" for E where
  reach_red: "reach E 0 (0, 0)"
| reach_blue: "reach E 0 (0, 1)"
| reach_step: "reach E k (u, p) \<Longrightarrow> (u, v, c) \<in> E \<Longrightarrow> c \<noteq> p \<Longrightarrow> reach E (k + 1) (v, c)"

lemma reach_nonneg: "reach E k s \<Longrightarrow> 0 \<le> k"
  by (induction rule: reach.induct) auto

lemma alternating_walk_snoc:
  "alternating_walk E u (w @ [(a, b, c)]) v \<longleftrightarrow>
     alternating_walk E u w a \<and> (a, b, c) \<in> E \<and> b = v \<and>
     (w \<noteq> [] \<longrightarrow> snd (snd (last w)) \<noteq> c)"
proof (induction w arbitrary: u)
  case Nil
  then show ?case by auto
next
  case (Cons x w)
  obtain a' b' c' where x: "x = (a', b', c')" by (cases x)
  show ?case
  proof (cases w)
    case Nil
    with x show ?thesis by auto
  next
    case (Cons y w')
    obtain a2 b2 c2 where y: "y = (a2, b2, c2)" by (cases y)
    from Cons.IH [of b'] x Cons y show ?thesis by auto
  qed
qed

lemma reach_walk:
  "reach E k s \<Longrightarrow>
   \<exists>w. alternating_walk E 0 w (fst s) \<and> int (length w) = k \<and>
       (w \<noteq> [] \<longrightarrow> snd (snd (last w)) = snd s)"
proof (induction rule: reach.induct)
  case reach_red
  show ?case by (rule exI [of _ "[]"]) simp
next
  case reach_blue
  show ?case by (rule exI [of _ "[]"]) simp
next
  case (reach_step k u p v c)
  then obtain w where w: "alternating_walk E 0 w u" "int (length w) = k"
    "w \<noteq> [] \<longrightarrow> snd (snd (last w)) = p" by auto
  show ?case
    by (rule exI [of _ "w @ [(u, v, c)]"]) (use w reach_step.hyps in \<open>simp add: alternating_walk_snoc\<close>)
qed

definition two_colors :: "cedge set \<Rightarrow> bool" where
  "two_colors E = (\<forall>(u, v, c) \<in> E. c = 0 \<or> c = 1)"

lemma walk_reach:
  assumes "two_colors E"
  shows "alternating_walk E 0 w v \<Longrightarrow>
         (w = [] \<longrightarrow> reach E 0 (v, 0)) \<and>
         (w \<noteq> [] \<longrightarrow> reach E (int (length w)) (v, snd (snd (last w))))"
proof (induction w arbitrary: v rule: rev_induct)
  case Nil
  then show ?case by (auto intro: reach_red)
next
  case (snoc x w)
  obtain a b c where x: "x = (a, b, c)" by (cases x)
  from snoc.prems x have w: "alternating_walk E 0 w a" and e: "(a, b, c) \<in> E" and b: "b = v"
    and col: "w \<noteq> [] \<longrightarrow> snd (snd (last w)) \<noteq> c"
    by (auto simp: alternating_walk_snoc)
  from e assms have c01: "c = 0 \<or> c = 1" by (auto simp: two_colors_def)
  have "reach E (int (length w) + 1) (b, c)"
  proof (cases "w = []")
    case True
    with w have a0: "a = 0" by simp
    from c01 show ?thesis
    proof
      assume c: "c = 0"
      have "reach E (0 + 1) (b, c)"
        by (rule reach_step [OF reach_blue]) (use e a0 c in auto)
      with True show ?thesis by simp
    next
      assume c: "c = 1"
      have "reach E (0 + 1) (b, c)"
        by (rule reach_step [OF reach_red]) (use e a0 c in auto)
      with True show ?thesis by simp
    qed
  next
    case False
    with snoc.IH [OF w] have "reach E (int (length w)) (a, snd (snd (last w)))" by simp
    from reach_step [OF this e] col False show ?thesis by simp
  qed
  with x b show ?case by (simp add: add.commute)
qed

subsection \<open>The invariant of the loop, on sets of states\<close>

text \<open>
  \<open>V\<close> is the set of states whose flag is set, \<open>D\<close> the distance array as a function,
  \<open>cur\<close> the entry popped last, \<open>P\<close> the pairs of \<open>adj[currentNode]\<close> the inner loop has
  still to look at, and \<open>U\<close> the number of flags not yet set.
\<close>

definition entry_state :: "entry \<Rightarrow> int \<times> int" where
  "entry_state e = (case e of (v, d, c) \<Rightarrow> (v, c))"

definition entry_dist :: "entry \<Rightarrow> int" where
  "entry_dist e = (case e of (v, d, c) \<Rightarrow> d)"

definition shortest :: "cedge set \<Rightarrow> int \<Rightarrow> int \<times> int \<Rightarrow> bool" where
  "shortest E d s = (reach E d s \<and> (\<forall>k. reach E k s \<longrightarrow> d \<le> k))"

definition inv_queue :: "cedge set \<Rightarrow> (int \<times> int) set \<Rightarrow> entry \<Rightarrow> entry list \<Rightarrow> bool" where
  "inv_queue E V cur q =
     (entry_state cur \<in> V \<and> shortest E (entry_dist cur) (entry_state cur) \<and>
      (\<forall>e \<in> set q. entry_state e \<in> V \<and> shortest E (entry_dist e) (entry_state e) \<and>
         entry_dist cur \<le> entry_dist e \<and> entry_dist e \<le> entry_dist cur + 1) \<and>
      sorted (map entry_dist q))"

definition inv_level :: "cedge set \<Rightarrow> (int \<times> int) set \<Rightarrow> int \<Rightarrow> bool" where
  "inv_level E V d = (\<forall>s k. reach E k s \<longrightarrow> k \<le> d \<longrightarrow> s \<in> V)"

definition closed :: "cedge set \<Rightarrow> (int \<times> int) set \<Rightarrow> int \<times> int \<Rightarrow> bool" where
  "closed E V s = (\<forall>v c. (fst s, v, c) \<in> E \<longrightarrow> c \<noteq> snd s \<longrightarrow> (v, c) \<in> V)"

definition inv_closed :: "cedge set \<Rightarrow> (int \<times> int) set \<Rightarrow> entry \<Rightarrow> entry list \<Rightarrow> bool" where
  "inv_closed E V cur q =
     (\<forall>s \<in> V. s \<noteq> entry_state cur \<longrightarrow> s \<notin> entry_state ` set q \<longrightarrow> closed E V s)"

definition inv_pending :: "cedge set \<Rightarrow> (int \<times> int) set \<Rightarrow> entry \<Rightarrow> (int \<times> int) set \<Rightarrow> bool" where
  "inv_pending E V cur P =
     ((\<forall>v c. (fst (entry_state cur), v, c) \<in> E \<longrightarrow> c \<noteq> snd (entry_state cur) \<longrightarrow>
         (v, c) \<in> V \<or> (v, c) \<in> P) \<and>
      (\<forall>(v, c) \<in> P. (fst (entry_state cur), v, c) \<in> E))"

definition inv_dist :: "cedge set \<Rightarrow> int \<Rightarrow> (int \<times> int) set \<Rightarrow> (int \<Rightarrow> int) \<Rightarrow> bool" where
  "inv_dist E n V D =
     ((\<forall>v c k. (v, c) \<in> V \<longrightarrow> reach E k (v, c) \<longrightarrow> D v \<le> k) \<and>
      (\<forall>v. 0 \<le> v \<longrightarrow> v < n \<longrightarrow> D v = INT_MAX \<or> (\<exists>c. (v, c) \<in> V \<and> reach E (D v) (v, c))) \<and>
      (\<forall>v. 0 \<le> v \<longrightarrow> v < n \<longrightarrow> D v \<le> INT_MAX))"

definition inv_limit :: "cedge set \<Rightarrow> int \<Rightarrow> (int \<times> int) set \<Rightarrow> nat \<Rightarrow> bool" where
  "inv_limit E n V U =
     (\<forall>s \<in> V. \<exists>k. reach E k s \<and> k \<le> INT_MAX \<and> k + int U \<le> 2 * n - 2)"

text \<open>
  The search runs into \<open>currentDistance + 1\<close> at \<open>INT_MAX\<close>: some state is first entered
  by a walk of \<open>INT_MAX + 1\<close> edges, which takes more than \<open>2^30\<close> nodes.
\<close>
definition overflows :: "cedge set \<Rightarrow> int \<Rightarrow> bool" where
  "overflows E n = ((\<exists>s. shortest E (INT_MAX + 1) s) \<and> INT_MAX + 1 \<le> 2 * n - 2)"

definition inv_bound :: "int \<Rightarrow> (int \<Rightarrow> int) \<Rightarrow> entry \<Rightarrow> entry list \<Rightarrow> nat \<Rightarrow> bool" where
  "inv_bound n D cur q U =
     (entry_dist cur + int U \<le> 2 * n - 2 \<and>
      (\<forall>e \<in> set q. entry_dist e + int U \<le> 2 * n - 2) \<and>
      (\<forall>v. 0 \<le> v \<longrightarrow> v < n \<longrightarrow>
         D v = INT_MAX \<or> (D v + int U \<le> 2 * n - 2 \<and> D v \<le> entry_dist cur + 1)))"

text \<open>Pushing a new state.\<close>

lemma shortest_new:
  assumes lev: "inv_level E V d" and cur: "reach E d (u, p)"
    and e: "(u, v, c) \<in> E" "c \<noteq> p" and new: "(v, c) \<notin> V"
  shows "shortest E (d + 1) (v, c)"
proof -
  have "reach E (d + 1) (v, c)" using cur e by (rule reach_step)
  moreover have "d + 1 \<le> k" if "reach E k (v, c)" for k
  proof (rule ccontr)
    assume "\<not> d + 1 \<le> k"
    then have "k \<le> d" by simp
    with lev that have "(v, c) \<in> V" by (auto simp: inv_level_def)
    with new show False by simp
  qed
  ultimately show ?thesis by (simp add: shortest_def)
qed

lemma inv_queue_push:
  assumes q: "inv_queue E V (u, d, p) q" and lev: "inv_level E V d"
    and e: "(u, v, c) \<in> E" "c \<noteq> p" and new: "(v, c) \<notin> V"
  shows "inv_queue E (insert (v, c) V) (u, d, p) (q @ [(v, d + 1, c)])"
proof -
  from q have "reach E d (u, p)"
    by (simp add: inv_queue_def shortest_def entry_state_def entry_dist_def)
  from shortest_new [OF lev this e new] have s: "shortest E (d + 1) (v, c)" .
  from q have srt: "sorted (map entry_dist q)" and le: "\<forall>e \<in> set q. entry_dist e \<le> d + 1"
    by (simp_all add: inv_queue_def entry_dist_def)
  have "sorted (map entry_dist (q @ [(v, d + 1, c)]))"
    using srt le by (simp add: sorted_append entry_dist_def)
  with q s show ?thesis
    by (simp add: inv_queue_def entry_state_def entry_dist_def)
qed

lemma inv_level_mono: "inv_level E V d \<Longrightarrow> V \<subseteq> V' \<Longrightarrow> inv_level E V' d"
  by (auto simp: inv_level_def)

lemma closed_mono: "closed E V s \<Longrightarrow> V \<subseteq> V' \<Longrightarrow> closed E V' s"
  by (auto simp: closed_def)

lemma inv_closed_push:
  assumes "inv_closed E V cur q"
  shows "inv_closed E (insert (v, c) V) cur (q @ [(v, d', c)])"
  unfolding inv_closed_def
proof (intro ballI impI)
  fix s assume s: "s \<in> insert (v, c) V" "s \<noteq> entry_state cur"
    "s \<notin> entry_state ` set (q @ [(v, d', c)])"
  then have "s \<noteq> (v, c)" by (auto simp: entry_state_def)
  with s have "s \<in> V" "s \<notin> entry_state ` set q" by auto
  with assms s(2) have "closed E V s" by (simp add: inv_closed_def)
  then show "closed E (insert (v, c) V) s" by (rule closed_mono) auto
qed

lemma inv_pending_push:
  assumes "inv_pending E V cur (insert (v, c) P)"
  shows "inv_pending E (insert (v, c) V) cur P"
  using assms by (auto simp: inv_pending_def)

lemma inv_pending_skip:
  assumes "inv_pending E V (u, d, p) (insert (v, c) P)" and "c = p \<or> (v, c) \<in> V"
  shows "inv_pending E V (u, d, p) P"
  using assms by (auto simp: inv_pending_def entry_state_def)

lemma inv_dist_push:
  assumes D: "inv_dist E n V D" and s: "shortest E (d + 1) (v, c)"
    and le: "d + 1 \<le> INT_MAX"
  shows "inv_dist E n (insert (v, c) V) (D(v := min (D v) (d + 1)))"
proof -
  let ?V = "insert (v, c) V" and ?D = "D(v := min (D v) (d + 1))"
  have 1: "?D w \<le> k" if "(w, b) \<in> ?V" "reach E k (w, b)" for w b k
  proof (cases "(w, b) = (v, c)")
    case True
    with that s have "d + 1 \<le> k" by (simp add: shortest_def)
    with True show ?thesis by simp
  next
    case False
    with that have "(w, b) \<in> V" by auto
    with D that have "D w \<le> k" by (auto simp: inv_dist_def)
    then show ?thesis by (auto simp: min_def)
  qed
  have 2: "?D w = INT_MAX \<or> (\<exists>b. (w, b) \<in> ?V \<and> reach E (?D w) (w, b))"
    if w: "0 \<le> w" "w < n" for w
  proof (cases "w = v")
    case False
    with D w show ?thesis by (auto simp: inv_dist_def)
  next
    case True
    show ?thesis
    proof (cases "D v \<le> d + 1")
      case le: True
      from D w True have "D v = INT_MAX \<or> (\<exists>b. (v, b) \<in> V \<and> reach E (D v) (v, b))"
        by (simp add: inv_dist_def)
      with le True show ?thesis by (auto simp: min_def)
    next
      case False
      then have "?D v = d + 1" by (simp add: min_def)
      with s True show ?thesis by (auto simp: shortest_def)
    qed
  qed
  have 3: "?D w \<le> INT_MAX" if w: "0 \<le> w" "w < n" for w
  proof (cases "w = v")
    case True
    with le show ?thesis by (simp add: min_def)
  next
    case False
    with w D show ?thesis by (auto simp: inv_dist_def)
  qed
  from 1 2 3 show ?thesis unfolding inv_dist_def by blast
qed

lemma inv_limit_push:
  assumes L: "inv_limit E n V (Suc U)" and r: "reach E (d + 1) (v, c)"
    and le: "d + 1 \<le> INT_MAX" and b: "d + int (Suc U) \<le> 2 * n - 2"
  shows "inv_limit E n (insert (v, c) V) U"
  unfolding inv_limit_def
proof
  fix s assume "s \<in> insert (v, c) V"
  then show "\<exists>k. reach E k s \<and> k \<le> INT_MAX \<and> k + int U \<le> 2 * n - 2"
  proof
    assume "s = (v, c)"
    with r le b show ?thesis by (intro exI [of _ "d + 1"]) simp
  next
    assume "s \<in> V"
    with L obtain k where "reach E k s" "k \<le> INT_MAX" "k + int (Suc U) \<le> 2 * n - 2"
      by (auto simp: inv_limit_def)
    then show ?thesis by (intro exI [of _ k]) simp
  qed
qed

lemma inv_bound_push:
  assumes "inv_bound n D (u, d, p) q (Suc U)"
  shows "inv_bound n (D(v := min (D v) (d + 1))) (u, d, p) (q @ [(v, d + 1, c)]) U"
  using assms by (auto simp: inv_bound_def entry_dist_def min_def)

text \<open>Taking the next entry.\<close>

lemma inv_queue_next:
  assumes "inv_queue E V cur (nxt # q)"
  shows "inv_queue E V nxt q"
  using assms by (auto simp: inv_queue_def)

lemma inv_closed_next:
  assumes c: "inv_closed E V cur (nxt # q)" and p: "inv_pending E V cur {}"
  shows "inv_closed E V nxt q"
  unfolding inv_closed_def
proof (intro ballI impI)
  fix s assume s: "s \<in> V" "s \<noteq> entry_state nxt" "s \<notin> entry_state ` set q"
  show "closed E V s"
  proof (cases "s = entry_state cur")
    case True
    with p show ?thesis by (auto simp: inv_pending_def closed_def)
  next
    case False
    with c s show ?thesis by (auto simp: inv_closed_def)
  qed
qed

lemma inv_closed_done:
  assumes c: "inv_closed E V cur []" and p: "inv_pending E V cur {}"
  shows "\<forall>s \<in> V. closed E V s"
proof
  fix s assume s: "s \<in> V"
  show "closed E V s"
  proof (cases "s = entry_state cur")
    case True
    with p show ?thesis by (auto simp: inv_pending_def closed_def)
  next
    case False
    with c s show ?thesis by (auto simp: inv_closed_def)
  qed
qed

lemma inv_level_next:
  assumes lev: "inv_level E V (entry_dist cur)"
    and q: "inv_queue E V cur (nxt # q)"
    and c: "inv_closed E V cur (nxt # q)" and p: "inv_pending E V cur {}"
  shows "inv_level E V (entry_dist nxt)"
  unfolding inv_level_def
proof (intro allI impI)
  fix s k assume r: "reach E k s" and k: "k \<le> entry_dist nxt"
  let ?d = "entry_dist cur"
  from q have nd: "entry_dist nxt \<le> ?d + 1" by (simp add: inv_queue_def)
  show "s \<in> V"
  proof (cases "k \<le> ?d")
    case True
    with lev r show ?thesis unfolding inv_level_def by blast
  next
    case False
    with k nd have kd: "k = ?d + 1" and nxt: "entry_dist nxt = ?d + 1" by simp_all
    from q have "0 \<le> ?d" by (auto simp: inv_queue_def shortest_def dest: reach_nonneg)
    with kd have "k \<noteq> 0" by simp
    with r obtain j w pc v b where s: "s = (v, b)" and j: "k = j + 1"
      and rw: "reach E j (w, pc)" and e: "(w, v, b) \<in> E" "b \<noteq> pc"
      by (cases rule: reach.cases) auto
    from j kd have jd: "j = ?d" by simp
    with lev rw have wV: "(w, pc) \<in> V" by (auto simp: inv_level_def)
    have "closed E V (w, pc)"
    proof (cases "(w, pc) = entry_state cur")
      case True
      with p show ?thesis by (auto simp: inv_pending_def closed_def)
    next
      case False
      have "(w, pc) \<notin> entry_state ` set (nxt # q)"
      proof
        assume "(w, pc) \<in> entry_state ` set (nxt # q)"
        then obtain e' where e': "e' \<in> set (nxt # q)" "entry_state e' = (w, pc)"
          by (metis imageE)
        with q have sh: "shortest E (entry_dist e') (w, pc)"
          and ge: "entry_dist nxt \<le> entry_dist e'"
          by (auto simp: inv_queue_def)
        from sh rw have "entry_dist e' \<le> j" by (simp add: shortest_def)
        with ge nxt jd show False by simp
      qed
      with c wV False show ?thesis by (simp add: inv_closed_def)
    qed
    with e s show ?thesis by (auto simp: closed_def)
  qed
qed

lemma inv_bound_next:
  assumes "inv_bound n D cur (nxt # q) U" and "entry_dist cur \<le> entry_dist nxt"
  shows "inv_bound n D nxt q U"
  using assms by (auto simp: inv_bound_def)

lemma all_reached:
  assumes cl: "\<forall>s \<in> V. closed E V s" and seeds: "(0, 0) \<in> V" "(0, 1) \<in> V"
  shows "reach E k s \<Longrightarrow> s \<in> V"
proof (induction rule: reach.induct)
  case reach_red
  from seeds show ?case by simp
next
  case reach_blue
  from seeds show ?case by simp
next
  case (reach_step k u p v c)
  with cl show ?case by (auto simp: closed_def)
qed

subsection \<open>The invariant on the vectors\<close>

definition visited_set :: "bool list list \<Rightarrow> (int \<times> int) set" where
  "visited_set visited =
     {(v, c). 0 \<le> v \<and> v < int (length visited) \<and> 0 \<le> c \<and>
              c < int (length (visited ! nat v)) \<and> visited ! nat v ! nat c}"

definition dist_at :: "int list \<Rightarrow> int \<Rightarrow> int" where
  "dist_at dist v = (if 0 \<le> v then dist ! nat v else INT_MAX)"

definition shape :: "int \<Rightarrow> bool list list \<Rightarrow> int list \<Rightarrow> bool" where
  "shape n visited dist =
     (length visited = nat n \<and> length dist = nat n \<and> (\<forall>row \<in> set visited. length row = 2))"

definition graph_ok :: "cedge set \<Rightarrow> int \<Rightarrow> bool" where
  "graph_ok E n = (\<forall>(u, v, c) \<in> E. 0 \<le> u \<and> u < n \<and> 0 \<le> v \<and> v < n \<and> (c = 0 \<or> c = 1))"

definition adj_of :: "adjacency \<Rightarrow> cedge set \<Rightarrow> int \<Rightarrow> bool" where
  "adj_of adj E n =
     (length adj = nat n \<and>
      (\<forall>u v c. 0 \<le> u \<longrightarrow> u < n \<longrightarrow> ((v, c) \<in> set (adj ! nat u)) = ((u, v, c) \<in> E)))"

lemma visited_set_update:
  assumes "shape n visited dist" "0 \<le> v" "v < n" "c = 0 \<or> c = 1"
  shows "visited_set (visited[nat v := (visited ! nat v)[nat c := True]]) =
         insert (v, c) (visited_set visited)"
proof -
  from assms have len: "nat v < length visited" "length (visited ! nat v) = 2"
    by (auto simp: shape_def)
  have eq: "nat w = nat v \<longleftrightarrow> w = v" if "0 \<le> w" for w using that assms(2) by auto
  have eqc: "nat b = nat c \<longleftrightarrow> b = c" if "0 \<le> b" for b using that assms(4) by auto
  show ?thesis
    unfolding visited_set_def using len assms(2-4)
    by (auto simp: nth_list_update eq eqc split: if_splits)
qed

lemma shape_update:
  assumes "shape n visited dist"
  shows "shape n (visited[i := (visited ! i)[j := True]]) (dist[k := x])"
proof -
  have "length row = 2" if "row \<in> set (visited[i := (visited ! i)[j := True]])" for row
  proof (cases "i < length visited")
    case True
    from that have "row = (visited ! i)[j := True] \<or> row \<in> set visited"
      by (auto dest!: set_update_subset_insert [THEN subsetD])
    with assms True show ?thesis by (auto simp: shape_def)
  next
    case False
    then have "visited[i := (visited ! i)[j := True]] = visited"
      by (intro list_update_beyond) simp
    with that assms show ?thesis by (simp add: shape_def)
  qed
  with assms show ?thesis by (simp add: shape_def)
qed

lemma dist_at_update:
  assumes "0 \<le> v" "nat v < length dist"
  shows "dist_at (dist[nat v := x]) = (dist_at dist)(v := x)"
proof
  fix w
  show "dist_at (dist[nat v := x]) w = ((dist_at dist)(v := x)) w"
    using assms by (auto simp: dist_at_def nth_list_update)
qed

lemma unvisited_new:
  assumes sh: "shape n visited dist" and v: "0 \<le> v" "v < n" and c: "c = 0 \<or> c = 1"
    and new: "(v, c) \<notin> visited_set visited"
  shows "Suc (unvisited (visited[nat v := (visited ! nat v)[nat c := True]])) = unvisited visited"
proof -
  from sh v have len: "nat v < length visited" "length (visited ! nat v) = 2"
    by (auto simp: shape_def)
  from c len have cl: "nat c < length (visited ! nat v)" by auto
  from new v c len have nv: "\<not> visited ! nat v ! nat c"
    by (auto simp: visited_set_def)
  from unvisited_update [OF len(1) cl nv] show ?thesis .
qed

lemma visit_new:
  assumes sh: "shape n visited dist" and v: "0 \<le> v" "v < n" and c: "c = 0 \<or> c = 1"
    and cp: "c \<noteq> p" and new: "(v, c) \<notin> visited_set visited" and d: "d \<noteq> INT_MAX"
  shows "visit d p (v, c) (visited, dist, q) =
           Inr (visited[nat v := (visited ! nat v)[nat c := True]],
                dist[nat v := min (dist ! nat v) (d + 1)],
                q @ [(v, d + 1, c)])"
proof -
  from sh v have len: "nat v < length visited" "length (visited ! nat v) = 2"
    "int (length visited) = n" "int (length dist) = n"
    by (auto simp: shape_def)
  from new v c len have nv: "\<not> visited ! nat v ! nat c"
    by (auto simp: visited_set_def)
  from len v c cp nv d show ?thesis
    by (auto simp: visit_def)
qed

lemma visit_old:
  assumes sh: "shape n visited dist" and v: "0 \<le> v" "v < n" and c: "c = 0 \<or> c = 1"
    and old: "c = p \<or> (v, c) \<in> visited_set visited"
  shows "visit d p (v, c) (visited, dist, q) = Inr (visited, dist, q)"
proof -
  from sh v have len: "nat v < length visited" "length (visited ! nat v) = 2"
    "int (length visited) = n"
    by (auto simp: shape_def)
  from old show ?thesis
  proof
    assume "c = p"
    then show ?thesis by (simp add: visit_def)
  next
    assume "(v, c) \<in> visited_set visited"
    then have "visited ! nat v ! nat c" by (simp add: visited_set_def)
    with len v c show ?thesis by (auto simp: visit_def)
  qed
qed

definition binv :: "cedge set \<Rightarrow> int \<Rightarrow> entry \<Rightarrow> (int \<times> int) list \<Rightarrow> bfs_state \<Rightarrow> bool" where
  "binv E n cur nes s =
     (case s of (visited, dist, q) \<Rightarrow>
        shape n visited dist \<and>
        inv_queue E (visited_set visited) cur q \<and>
        inv_level E (visited_set visited) (entry_dist cur) \<and>
        inv_closed E (visited_set visited) cur q \<and>
        inv_pending E (visited_set visited) cur (set nes) \<and>
        inv_dist E n (visited_set visited) (dist_at dist) \<and>
        inv_bound n (dist_at dist) cur q (unvisited visited) \<and>
        inv_limit E n (visited_set visited) (unvisited visited))"

lemma visit_overflow:
  assumes sh: "shape n visited dist" and v: "0 \<le> v" "v < n" and c: "c = 0 \<or> c = 1"
    and cp: "c \<noteq> p" and new: "(v, c) \<notin> visited_set visited"
  shows "visit INT_MAX p (v, c) (visited, dist, q) = Inl SignedOverflow"
proof -
  from sh v have len: "nat v < length visited" "length (visited ! nat v) = 2"
    "int (length visited) = n" "int (length dist) = n"
    by (auto simp: shape_def)
  from new v c len have nv: "\<not> visited ! nat v ! nat c"
    by (auto simp: visited_set_def)
  from len v c cp nv show ?thesis
    by (auto simp: visit_def)
qed

lemma no_overflow_small: "n \<le> 2 ^ 30 \<Longrightarrow> \<not> overflows E n"
  by (simp add: overflows_def INT_MAX_def)

lemma binv_visit_cases:
  assumes g: "graph_ok E n"
    and inv: "binv E n (u, d, p) (ne # nes) s"
  shows "(\<exists>s'. visit d p ne s = Inr s' \<and> binv E n (u, d, p) nes s') \<or>
         (visit d p ne s = Inl SignedOverflow \<and> overflows E n)"
proof -
  obtain visited dist q where s: "s = (visited, dist, q)" by (cases s)
  obtain v c where ne: "ne = (v, c)" by (cases ne)
  let ?V = "visited_set visited" and ?D = "dist_at dist" and ?U = "unvisited visited"
  from inv s have sh: "shape n visited dist"
    and iq: "inv_queue E ?V (u, d, p) q"
    and il: "inv_level E ?V d"
    and ic: "inv_closed E ?V (u, d, p) q"
    and ip: "inv_pending E ?V (u, d, p) (insert (v, c) (set nes))"
    and id: "inv_dist E n ?V ?D"
    and ib: "inv_bound n ?D (u, d, p) q ?U"
    and lim: "inv_limit E n ?V ?U"
    by (simp_all add: binv_def entry_dist_def ne)
  from ip have e: "(u, v, c) \<in> E" by (auto simp: inv_pending_def entry_state_def)
  with g have v: "0 \<le> v" "v < n" and c: "c = 0 \<or> c = 1" by (auto simp: graph_ok_def)
  show ?thesis
  proof (cases "c = p \<or> (v, c) \<in> ?V")
    case True
    from visit_old [OF sh v c True] have "visit d p ne s = Inr s" by (simp add: s ne)
    moreover from inv_pending_skip [OF ip True] inv s
    have "binv E n (u, d, p) nes s" by (simp add: binv_def)
    ultimately show ?thesis by blast
  next
    case False
    then have cp: "c \<noteq> p" and new: "(v, c) \<notin> ?V" by simp_all
    let ?visited' = "visited[nat v := (visited ! nat v)[nat c := True]]"
    from unvisited_new [OF sh v c new] have U: "Suc (unvisited ?visited') = ?U" .
    from ib have dU: "d + int ?U \<le> 2 * n - 2" by (simp add: inv_bound_def entry_dist_def)
    from iq have cur: "reach E d (u, p)" and curV: "(u, p) \<in> ?V"
      and curmin: "\<forall>k. reach E k (u, p) \<longrightarrow> d \<le> k"
      by (simp_all add: inv_queue_def shortest_def entry_state_def entry_dist_def)
    from lim curV obtain k where "reach E k (u, p)" "k \<le> INT_MAX"
      by (auto simp: inv_limit_def)
    with curmin have dle: "d \<le> INT_MAX" by force
    from shortest_new [OF il cur e cp new] have sn: "shortest E (d + 1) (v, c)" .
    show ?thesis
    proof (cases "d = INT_MAX")
      case True
      from visit_overflow [OF sh v c cp new] True
      have "visit d p ne s = Inl SignedOverflow" by (simp add: s ne)
      moreover from sn True dU U have "overflows E n"
        unfolding overflows_def by (intro conjI exI [of _ "(v, c)"]) simp_all
      ultimately show ?thesis by blast
    next
      case dne: False
      with dle have dl1: "d + 1 \<le> INT_MAX" by simp
      let ?dist' = "dist[nat v := min (dist ! nat v) (d + 1)]"
      let ?q' = "q @ [(v, d + 1, c)]"
      from visit_new [OF sh v c cp new dne]
      have vis: "visit d p ne s = Inr (?visited', ?dist', ?q')"
        by (simp add: s ne)
      from sh v have lv: "nat v < length dist" by (simp add: shape_def)
      have V': "visited_set ?visited' = insert (v, c) ?V"
        by (rule visited_set_update [OF sh v c])
      have D': "dist_at ?dist' = ?D(v := min (?D v) (d + 1))"
        using dist_at_update [OF v(1) lv] v(1) by (simp add: dist_at_def)
      have 1: "shape n ?visited' ?dist'" by (rule shape_update [OF sh])
      have 2: "inv_queue E (visited_set ?visited') (u, d, p) ?q'"
        unfolding V' by (rule inv_queue_push [OF iq il e cp new])
      have 3: "inv_level E (visited_set ?visited') d"
        unfolding V' by (rule inv_level_mono [OF il]) auto
      have 4: "inv_closed E (visited_set ?visited') (u, d, p) ?q'"
        unfolding V' by (rule inv_closed_push [OF ic])
      have 5: "inv_pending E (visited_set ?visited') (u, d, p) (set nes)"
        unfolding V' by (rule inv_pending_push [OF ip])
      have 6: "inv_dist E n (visited_set ?visited') (dist_at ?dist')"
        unfolding V' D' by (rule inv_dist_push [OF id sn dl1])
      from ib U have "inv_bound n ?D (u, d, p) q (Suc (unvisited ?visited'))" by simp
      then have 7: "inv_bound n (dist_at ?dist') (u, d, p) ?q' (unvisited ?visited')"
        unfolding D' by (rule inv_bound_push)
      from lim U have "inv_limit E n ?V (Suc (unvisited ?visited'))" by simp
      moreover from sn have "reach E (d + 1) (v, c)" by (simp add: shortest_def)
      moreover from dU U have "d + int (Suc (unvisited ?visited')) \<le> 2 * n - 2" by simp
      ultimately have 8: "inv_limit E n (visited_set ?visited') (unvisited ?visited')"
        unfolding V' using dl1 by (intro inv_limit_push)
      from 1 2 3 4 5 6 7 8 have "binv E n (u, d, p) nes (?visited', ?dist', ?q')"
        by (simp add: binv_def entry_dist_def)
      with vis show ?thesis by blast
    qed
  qed
qed


lemma binv_relax_cases:
  assumes g: "graph_ok E n"
  shows "binv E n (u, d, p) nes s \<Longrightarrow>
         (\<exists>s'. relax d p nes s = Inr s' \<and> binv E n (u, d, p) [] s') \<or>
         (relax d p nes s = Inl SignedOverflow \<and> overflows E n)"
proof (induction nes arbitrary: s)
  case Nil
  then show ?case by simp
next
  case (Cons ne nes)
  from binv_visit_cases [OF g Cons.prems] show ?case
  proof
    assume "\<exists>s'. visit d p ne s = Inr s' \<and> binv E n (u, d, p) nes s'"
    then obtain s1 where
      1: "visit d p ne s = Inr s1" and 2: "binv E n (u, d, p) nes s1" by blast
    from Cons.IH [OF 2] 1 show ?thesis by simp
  next
    assume "visit d p ne s = Inl SignedOverflow \<and> overflows E n"
    then show ?thesis by simp
  qed
qed


lemma binv_next:
  assumes a: "adj_of adj E n"
    and inv: "binv E n cur [] (visited, dist, nxt # q)"
  shows "binv E n nxt (adj ! nat (fst nxt)) (visited, dist, q)"
proof -
  let ?V = "visited_set visited" and ?D = "dist_at dist" and ?U = "unvisited visited"
  from inv have sh: "shape n visited dist"
    and iq: "inv_queue E ?V cur (nxt # q)"
    and il: "inv_level E ?V (entry_dist cur)"
    and ic: "inv_closed E ?V cur (nxt # q)"
    and ip: "inv_pending E ?V cur {}"
    and id: "inv_dist E n ?V ?D"
    and ib: "inv_bound n ?D cur (nxt # q) ?U"
    and lim: "inv_limit E n ?V ?U"
    by (simp_all add: binv_def)
  obtain u d p where nxt: "nxt = (u, d, p)" by (cases nxt)
  from iq nxt have "(u, p) \<in> ?V" by (simp add: inv_queue_def entry_state_def)
  with sh have u: "0 \<le> u" "u < n" by (auto simp: visited_set_def shape_def split: if_splits)
  from iq have le: "entry_dist cur \<le> entry_dist nxt" by (simp add: inv_queue_def)
  have 5: "inv_pending E ?V nxt (set (adj ! nat (fst nxt)))"
    using a u by (auto simp: inv_pending_def adj_of_def nxt entry_state_def)
  from sh inv_queue_next [OF iq] inv_level_next [OF il iq ic ip] inv_closed_next [OF ic ip]
    5 id inv_bound_next [OF ib le] lim
  show ?thesis by (simp add: binv_def)
qed

lemma bfs_binv_cases:
  assumes g: "graph_ok E n"
  shows "adj_of adj E n \<Longrightarrow> binv E n cur (adj ! nat (fst cur)) (visited, dist, q) \<Longrightarrow>
         (\<exists>visited' dist' lst. bfs adj (visited, dist, cur # q) = Inr (visited', dist', []) \<and>
            binv E n lst [] (visited', dist', [])) \<or>
         (bfs adj (visited, dist, cur # q) = Inl SignedOverflow \<and> overflows E n)"
proof (induction adj "(visited, dist, cur # q)" arbitrary: visited dist cur q rule: bfs.induct)
  case (2 adj visited dist u d p q)
  from "2.prems" have a: "adj_of adj E n" by simp
  from "2.prems" have inv: "binv E n (u, d, p) (adj ! nat u) (visited, dist, q)" by simp
  then have "(u, p) \<in> visited_set visited" "shape n visited dist"
    by (simp_all add: binv_def inv_queue_def entry_state_def)
  with a have u: "\<not> (u < 0 \<or> int (length adj) \<le> u)"
    by (auto simp: visited_set_def shape_def adj_of_def)
  from binv_relax_cases [OF g inv] show ?case
  proof
    assume "relax d p (adj ! nat u) (visited, dist, q) = Inl SignedOverflow \<and> overflows E n"
    with u show ?thesis by simp
  next
    assume "\<exists>s'. relax d p (adj ! nat u) (visited, dist, q) = Inr s' \<and> binv E n (u, d, p) [] s'"
    then obtain s' where
      r: "relax d p (adj ! nat u) (visited, dist, q) = Inr s'"
      and inv': "binv E n (u, d, p) [] s'" by blast
    obtain visited1 dist1 q1 where s': "s' = (visited1, dist1, q1)" by (cases s')
    from u r have step: "bfs adj (visited, dist, (u, d, p) # q) = bfs adj s'" by simp
    show ?thesis
    proof (cases q1)
      case Nil
      with step s' inv' show ?thesis by auto
    next
      case (Cons nxt q2)
      from binv_next [OF a] inv' s' Cons
      have "binv E n nxt (adj ! nat (fst nxt)) (visited1, dist1, q2)" by simp
      moreover from r s' Cons
      have "relax d p (adj ! nat u) (visited, dist, q) = Inr (visited1, dist1, nxt # q2)" by simp
      ultimately have "(\<exists>visited' dist' lst.
          bfs adj (visited1, dist1, nxt # q2) = Inr (visited', dist', []) \<and>
          binv E n lst [] (visited', dist', [])) \<or>
          (bfs adj (visited1, dist1, nxt # q2) = Inl SignedOverflow \<and> overflows E n)"
        using "2.hyps" u a by blast
      with step s' Cons show ?thesis by simp
    qed
  qed
qed

lemma bfs_binv:
  assumes g: "graph_ok E n" and n: "n \<le> 2 ^ 30"
    and a: "adj_of adj E n" and inv: "binv E n cur (adj ! nat (fst cur)) (visited, dist, q)"
  shows "\<exists>visited' dist' lst. bfs adj (visited, dist, cur # q) = Inr (visited', dist', []) \<and>
            binv E n lst [] (visited', dist', [])"
  using bfs_binv_cases [OF g a inv] no_overflow_small [OF n] by blast

subsection \<open>The adjacency list and the first state\<close>

lemma add_edge_ok:
  assumes "length e = 2" "0 \<le> e ! 0" "e ! 0 < n" "length adj = nat n"
  shows "add_edge col adj e = Inr (adj[nat (e ! 0) := adj ! nat (e ! 0) @ [(e ! 1, col)]])"
  using assms by (auto simp: add_edge_def)

lemma add_edges_ok:
  "endpoints_in_range n es \<Longrightarrow> length adj = nat n \<Longrightarrow>
   \<exists>adj'. add_edges col adj es = Inr adj' \<and> length adj' = nat n \<and>
     (\<forall>u. 0 \<le> u \<longrightarrow> u < n \<longrightarrow>
        set (adj' ! nat u) = set (adj ! nat u) \<union> {(e ! 1, col) | e. e \<in> set es \<and> e ! 0 = u})"
proof (induction es arbitrary: adj)
  case Nil
  then show ?case by simp
next
  case (Cons e es)
  from Cons.prems have e: "length e = 2" "0 \<le> e ! 0" "e ! 0 < n"
    and es: "endpoints_in_range n es"
    by (simp_all add: endpoints_in_range_def)
  let ?adj1 = "adj[nat (e ! 0) := adj ! nat (e ! 0) @ [(e ! 1, col)]]"
  from add_edge_ok [OF e Cons.prems(2)] have 1: "add_edge col adj e = Inr ?adj1" .
  from Cons.prems(2) have len1: "length ?adj1 = nat n" by simp
  from Cons.IH [OF es len1] obtain adj' where
    2: "add_edges col ?adj1 es = Inr adj'" and len: "length adj' = nat n"
    and sets: "\<forall>u. 0 \<le> u \<longrightarrow> u < n \<longrightarrow>
        set (adj' ! nat u) = set (?adj1 ! nat u) \<union> {(e ! 1, col) | e. e \<in> set es \<and> e ! 0 = u}"
    by blast
  have "set (adj' ! nat u) =
          set (adj ! nat u) \<union> {(e' ! 1, col) | e'. e' \<in> set (e # es) \<and> e' ! 0 = u}"
    if u: "0 \<le> u" "u < n" for u
  proof -
    from u Cons.prems(2) have lu: "nat u < length adj" by simp
    from u e have eq: "nat u = nat (e ! 0) \<longleftrightarrow> u = e ! 0" by auto
    have "set (?adj1 ! nat u) = set (adj ! nat u) \<union> (if e ! 0 = u then {(e ! 1, col)} else {})"
      using lu eq by (auto simp: nth_list_update)
    with sets u show ?thesis by auto
  qed
  with 1 2 len show ?case by auto
qed

lemma colored_edges_ok:
  assumes "valid_input n redEdges blueEdges"
  shows "graph_ok (colored_edges redEdges blueEdges) n"
  using assms
  by (auto simp: valid_input_def endpoints_in_range_def graph_ok_def colored_edges_def)

lemma graph_ok_two_colors: "graph_ok E n \<Longrightarrow> two_colors E"
  by (auto simp: graph_ok_def two_colors_def)

lemma build_adj:
  assumes "valid_input n redEdges blueEdges"
  shows "\<exists>adj0 adj. add_edges 0 (replicate (nat n) []) redEdges = Inr adj0 \<and>
           add_edges 1 adj0 blueEdges = Inr adj \<and>
           adj_of adj (colored_edges redEdges blueEdges) n"
proof -
  from assms have r: "endpoints_in_range n redEdges" and b: "endpoints_in_range n blueEdges"
    by (simp_all add: valid_input_def)
  from add_edges_ok [OF r, of "replicate (nat n) []" 0] obtain adj0 where
    0: "add_edges 0 (replicate (nat n) []) redEdges = Inr adj0" and len0: "length adj0 = nat n"
    and s0: "\<forall>u. 0 \<le> u \<longrightarrow> u < n \<longrightarrow>
        set (adj0 ! nat u) = set (replicate (nat n) [] ! nat u) \<union>
          {(e ! 1, 0) | e. e \<in> set redEdges \<and> e ! 0 = u}"
    by auto
  from add_edges_ok [OF b len0, of 1] obtain adj where
    1: "add_edges 1 adj0 blueEdges = Inr adj" and len: "length adj = nat n"
    and s1: "\<forall>u. 0 \<le> u \<longrightarrow> u < n \<longrightarrow>
        set (adj ! nat u) = set (adj0 ! nat u) \<union>
          {(e ! 1, 1) | e. e \<in> set blueEdges \<and> e ! 0 = u}"
    by auto
  have "((v, c) \<in> set (adj ! nat u)) = ((u, v, c) \<in> colored_edges redEdges blueEdges)"
    if u: "0 \<le> u" "u < n" for u v c
  proof -
    from u have "replicate (nat n) ([] :: (int \<times> int) list) ! nat u = []" by simp
    with s0 s1 u have "set (adj ! nat u) =
        {(e ! 1, 0) | e. e \<in> set redEdges \<and> e ! 0 = u} \<union>
        {(e ! 1, 1) | e. e \<in> set blueEdges \<and> e ! 0 = u}" by simp
    then show ?thesis by (auto simp: colored_edges_def)
  qed
  with 0 1 len show ?thesis by (auto simp: adj_of_def)
qed

lemma initial_state_eq:
  "initial_state n =
     ((replicate (nat n) [False, False])
        [0 := [False, False][0 := True], 0 := ([False, False][0 := True])[1 := True]],
      (replicate (nat n) INT_MAX)[0 := 0], [(0, 0, 0), (0, 0, 1)])" if "1 \<le> n"
proof -
  have "replicate 2 False = [False, False]" by (simp add: numeral_2_eq_2)
  with that show ?thesis by (simp add: initial_state_def Let_def)
qed

lemma zero_or_one: "0 \<le> (c::int) \<Longrightarrow> c < 2 \<Longrightarrow> c = 0 \<or> c = 1"
  by arith

lemma initial_visited_set:
  assumes n: "1 \<le> n"
  shows "visited_set ((replicate (nat n) [False, False])[0 := [True, True]]) = {(0, 0), (0, 1)}"
proof -
  let ?visited = "(replicate (nat n) [False, False])[0 := [True, True]]"
  from n have n0: "0 < nat n" by simp
  have "(v, c) \<in> visited_set ?visited \<longleftrightarrow> v = 0 \<and> (c = 0 \<or> c = 1)" for v c
  proof (cases "v = 0")
    case True
    with n0 show ?thesis by (auto simp: visited_set_def dest: zero_or_one)
  next
    case False
    have "\<not> ?visited ! nat v ! nat c" if v: "0 \<le> v" "v < n"
      and c: "0 \<le> c" "c < int (length (?visited ! nat v))"
    proof -
      from v False have row: "?visited ! nat v = [False, False]" by simp
      with c have "c = 0 \<or> c = 1" by (intro zero_or_one) simp_all
      with row show ?thesis by auto
    qed
    with False show ?thesis by (auto simp: visited_set_def)
  qed
  then show ?thesis by auto
qed

lemma initial_binv:
  assumes n: "1 \<le> n" and a: "adj_of adj E n"
  shows "\<exists>visited dist. initial_state n = (visited, dist, [(0, 0, 0), (0, 0, 1)]) \<and>
           binv E n (0, 0, 0) (adj ! nat (fst ((0, 0, 0) :: entry))) (visited, dist, [(0, 0, 1)])"
proof -
  let ?v0 = "replicate (nat n) [False, False]"
  let ?v1 = "?v0[0 := (?v0 ! 0)[0 := True]]"
  let ?v2 = "?v1[0 := (?v1 ! 0)[1 := True]]"
  let ?visited = "(replicate (nat n) [False, False])[0 := [True, True]]"
  let ?dist = "(replicate (nat n) INT_MAX)[0 := 0]"
  from n have n0: "0 < nat n" by simp
  have v2: "?v2 = ?visited" using n0 by simp
  from initial_state_eq [OF n] n0
  have init: "initial_state n = (?visited, ?dist, [(0, 0, 0), (0, 0, 1)])" by simp
  have "unvisited ?v0 = 2 * nat n" by (simp add: unvisited_def sum_list_replicate)
  moreover have "Suc (unvisited ?v1) = unvisited ?v0"
    by (rule unvisited_update) (use n0 in simp_all)
  moreover have "Suc (unvisited ?v2) = unvisited ?v1"
    by (rule unvisited_update) (use n0 in simp_all)
  ultimately have U: "int (unvisited ?visited) = 2 * n - 2" using v2 n by simp
  have V: "visited_set ?visited = {(0, 0), (0, 1)}"
    by (rule initial_visited_set [OF n])
  have D0: "dist_at ?dist 0 = 0" using n0 by (simp add: dist_at_def)
  have Dn: "dist_at ?dist v = INT_MAX" if "v \<noteq> 0" "v < n" for v
    using that by (auto simp: dist_at_def nth_list_update)
  have s0: "shortest E 0 (0, c)" if "c = 0 \<or> c = 1" for c
    using that by (auto simp: shortest_def intro: reach_red reach_blue dest: reach_nonneg)
  have lev: "s \<in> {(0, 0), (0, 1)}" if "reach E k s" "k \<le> 0" for k s
    using that by (cases rule: reach.cases) (auto dest: reach_nonneg)
  have 1: "shape n ?visited ?dist"
    by (auto simp: shape_def dest!: set_update_subset_insert [THEN subsetD])
  have 2: "inv_queue E (visited_set ?visited) (0, 0, 0) [(0, 0, 1)]"
    unfolding V using s0 by (simp add: inv_queue_def entry_state_def entry_dist_def)
  have 3: "inv_level E (visited_set ?visited) 0"
    unfolding V inv_level_def using lev by blast
  have 4: "inv_closed E (visited_set ?visited) (0, 0, 0) [(0, 0, 1)]"
    unfolding V by (simp add: inv_closed_def entry_state_def)
  have 5: "inv_pending E (visited_set ?visited) (0, 0, 0) (set (adj ! nat 0))"
    using a n by (auto simp: inv_pending_def adj_of_def entry_state_def)
  have 6: "inv_dist E n (visited_set ?visited) (dist_at ?dist)"
    unfolding V inv_dist_def
  proof (intro conjI allI impI)
    fix v c k assume "(v, c) \<in> {(0, 0), (0, 1)}" "reach E k (v, c)"
    with D0 show "dist_at ?dist v \<le> k" by (auto dest: reach_nonneg)
  next
    fix v :: int assume "0 \<le> v" "v < n"
    show "dist_at ?dist v = INT_MAX \<or>
          (\<exists>c. (v, c) \<in> {(0, 0), (0, 1)} \<and> reach E (dist_at ?dist v) (v, c))"
    proof (cases "v = 0")
      case True
      with D0 show ?thesis by (auto intro: reach_red)
    next
      case False
      with Dn \<open>v < n\<close> show ?thesis by simp
    qed
  next
    fix v :: int assume "0 \<le> v" "v < n"
    show "dist_at ?dist v \<le> INT_MAX"
    proof (cases "v = 0")
      case True
      with D0 show ?thesis by (simp add: INT_MAX_def)
    next
      case False
      with Dn \<open>v < n\<close> show ?thesis by simp
    qed
  qed
  have 7: "inv_bound n (dist_at ?dist) (0, 0, 0) [(0, 0, 1)] (unvisited ?visited)"
    unfolding inv_bound_def
  proof (intro conjI allI impI ballI)
    fix v :: int assume "0 \<le> v" "v < n"
    show "dist_at ?dist v = INT_MAX \<or>
      dist_at ?dist v + int (unvisited ?visited) \<le> 2 * n - 2 \<and>
      dist_at ?dist v \<le> entry_dist (0, 0, 0) + 1"
    proof (cases "v = 0")
      case True
      with D0 U show ?thesis by (simp add: entry_dist_def)
    next
      case False
      with Dn \<open>v < n\<close> show ?thesis by simp
    qed
  qed (use U in \<open>simp_all add: entry_dist_def\<close>)
  have 8: "inv_limit E n (visited_set ?visited) (unvisited ?visited)"
    unfolding V inv_limit_def
  proof
    fix s :: "int \<times> int" assume "s \<in> {(0, 0), (0, 1)}"
    then have "reach E 0 s" by (auto intro: reach_red reach_blue)
    with U show "\<exists>k. reach E k s \<and> k \<le> INT_MAX \<and> k + int (unvisited ?visited) \<le> 2 * n - 2"
      by (intro exI [of _ 0]) (simp add: INT_MAX_def)
  qed
  from 1 2 3 4 5 6 7 8
  have "binv E n (0, 0, 0) (adj ! nat 0) (?visited, ?dist, [(0, 0, 1)])"
    by (simp add: binv_def entry_dist_def)
  with init show ?thesis by simp
qed

subsection \<open>The state the loop ends in\<close>

lemma walk_iff_reach:
  assumes "two_colors E"
  shows "(\<exists>w. alternating_walk E 0 w i \<and> int (length w) = k) \<longleftrightarrow> (\<exists>c. reach E k (i, c))"
proof
  assume "\<exists>w. alternating_walk E 0 w i \<and> int (length w) = k"
  then obtain w where w: "alternating_walk E 0 w i" "int (length w) = k" by blast
  from walk_reach [OF assms w(1)] w(2) show "\<exists>c. reach E k (i, c)"
    by (cases "w = []") auto
next
  assume "\<exists>c. reach E k (i, c)"
  then obtain c where "reach E k (i, c)" ..
  from reach_walk [OF this] show "\<exists>w. alternating_walk E 0 w i \<and> int (length w) = k"
    by auto
qed

lemma final_all_reached:
  assumes inv: "binv E n lst [] (visited, dist, [])" and r: "reach E k s"
  shows "s \<in> visited_set visited"
proof -
  let ?V = "visited_set visited"
  from inv have iq: "inv_queue E ?V lst []"
    and il: "inv_level E ?V (entry_dist lst)"
    and ic: "inv_closed E ?V lst []"
    and ip: "inv_pending E ?V lst {}"
    by (simp_all add: binv_def)
  from iq have "0 \<le> entry_dist lst"
    by (auto simp: inv_queue_def shortest_def dest: reach_nonneg)
  with il have seeds: "(0, 0) \<in> ?V" "(0, 1) \<in> ?V"
    unfolding inv_level_def by (blast intro: reach_red reach_blue)+
  from inv_closed_done [OF ic ip] have cl: "\<forall>s \<in> ?V. closed E ?V s" .
  from all_reached [OF cl seeds r] show ?thesis .
qed

lemma final_within_int:
  assumes inv: "binv E n lst [] (visited, dist, [])" and r: "reach E k s"
  shows "\<exists>k'. reach E k' s \<and> k' \<le> INT_MAX \<and> k' \<le> 2 * n - 2"
proof -
  from inv have "inv_limit E n (visited_set visited) (unvisited visited)"
    by (simp add: binv_def)
  with final_all_reached [OF inv r] obtain k' where
    "reach E k' s" "k' \<le> INT_MAX" "k' + int (unvisited visited) \<le> 2 * n - 2"
    by (auto simp: inv_limit_def)
  then show ?thesis by (intro exI [of _ k']) simp
qed

lemma final_capped:
  assumes inv: "binv E n lst [] (visited, dist, [])" and tc: "two_colors E"
    and i: "0 \<le> i" "i < n"
  shows "capped E i (unreachable_to_minus_one dist ! nat i)"
proof -
  let ?V = "visited_set visited" and ?D = "dist_at dist"
  from inv have sh: "shape n visited dist" and id: "inv_dist E n ?V ?D"
    by (simp_all add: binv_def)
  from sh i have li: "nat i < length dist" by (simp add: shape_def)
  with i have res: "unreachable_to_minus_one dist ! nat i = (if ?D i = INT_MAX then - 1 else ?D i)"
    by (simp add: unreachable_to_minus_one_def dist_at_def)
  from id i have d2: "?D i = INT_MAX \<or> (\<exists>c. (i, c) \<in> ?V \<and> reach E (?D i) (i, c))"
    and d3: "?D i \<le> INT_MAX"
    by (simp_all add: inv_dist_def)
  have le: "?D i \<le> int (length w)" if "alternating_walk E 0 w i" for w
  proof -
    from walk_iff_reach [OF tc, of i "int (length w)"] that obtain c where
      r: "reach E (int (length w)) (i, c)" by blast
    from final_all_reached [OF inv r] r id show ?thesis by (auto simp: inv_dist_def)
  qed
  show ?thesis
  proof (cases "\<exists>w. alternating_walk E 0 w i \<and> int (length w) < INT_MAX")
    case True
    then obtain w0 where "alternating_walk E 0 w0 i" "int (length w0) < INT_MAX" by blast
    with le [of w0] have lt: "?D i < INT_MAX" by simp
    with d2 obtain c where "reach E (?D i) (i, c)" by auto
    with walk_iff_reach [OF tc, of i "?D i"]
    have ex: "\<exists>w. alternating_walk E 0 w i \<and> int (length w) = ?D i" by blast
    from True lt ex le res show ?thesis by (simp add: capped_def shortest_walk_def)
  next
    case False
    have "?D i = INT_MAX"
    proof (rule ccontr)
      assume ne: "?D i \<noteq> INT_MAX"
      with d2 obtain c where "reach E (?D i) (i, c)" by auto
      with walk_iff_reach [OF tc, of i "?D i"] obtain w where
        "alternating_walk E 0 w i" "int (length w) = ?D i" by blast
      with False have "INT_MAX \<le> ?D i" by force
      with d3 ne show False by simp
    qed
    with False res show ?thesis by (auto simp: capped_def)
  qed
qed

lemma final_expected:
  assumes inv: "binv E n lst [] (visited, dist, [])" and tc: "two_colors E"
    and n: "n \<le> 2 ^ 30" and i: "0 \<le> i" "i < n"
  shows "expected E i (unreachable_to_minus_one dist ! nat i)"
proof -
  have "(\<exists>w. alternating_walk E 0 w i \<and> int (length w) < INT_MAX) =
        (\<exists>w. alternating_walk E 0 w i)"
  proof
    assume "\<exists>w. alternating_walk E 0 w i"
    then obtain w where "alternating_walk E 0 w i" ..
    with walk_iff_reach [OF tc, of i "int (length w)"] obtain c where
      "reach E (int (length w)) (i, c)" by blast
    from final_within_int [OF inv this] obtain k where
      k: "reach E k (i, c)" "k \<le> 2 * n - 2" by blast
    from k(2) n have "k < INT_MAX" by (simp add: INT_MAX_def)
    moreover from walk_iff_reach [OF tc, of i k] k(1) obtain w' where
      "alternating_walk E 0 w' i" "int (length w') = k" by blast
    ultimately show "\<exists>w. alternating_walk E 0 w i \<and> int (length w) < INT_MAX" by blast
  qed blast
  with final_capped [OF inv tc i] show ?thesis by (simp add: capped_def expected_def)
qed

lemma search_cases:
  assumes v: "valid_input n redEdges blueEdges"
  shows "\<exists>adj0 adj.
           add_edges 0 (replicate (nat n) []) redEdges = Inr adj0 \<and>
           add_edges 1 adj0 blueEdges = Inr adj \<and>
           adj_of adj (colored_edges redEdges blueEdges) n \<and>
           ((\<exists>visited dist lst. bfs adj (initial_state n) = Inr (visited, dist, []) \<and>
               binv (colored_edges redEdges blueEdges) n lst [] (visited, dist, [])) \<or>
            (bfs adj (initial_state n) = Inl SignedOverflow \<and>
               overflows (colored_edges redEdges blueEdges) n))"
proof -
  let ?E = "colored_edges redEdges blueEdges"
  from v have n1: "1 \<le> n" by (simp add: valid_input_def)
  from build_adj [OF v] obtain adj0 adj where
    b: "add_edges 0 (replicate (nat n) []) redEdges = Inr adj0"
       "add_edges 1 adj0 blueEdges = Inr adj"
    and a: "adj_of adj ?E n" by blast
  from initial_binv [OF n1 a] obtain visited0 dist0 where
    init: "initial_state n = (visited0, dist0, [(0, 0, 0), (0, 0, 1)])"
    and inv0: "binv ?E n (0, 0, 0) (adj ! nat (fst ((0, 0, 0) :: entry))) (visited0, dist0, [(0, 0, 1)])"
    by blast
  from bfs_binv_cases [OF colored_edges_ok [OF v] a inv0] init b a show ?thesis by auto
qed

lemma search_ok:
  assumes v: "valid_input n redEdges blueEdges" and n: "n \<le> 2 ^ 30"
  shows "\<exists>adj0 adj visited dist lst.
           add_edges 0 (replicate (nat n) []) redEdges = Inr adj0 \<and>
           add_edges 1 adj0 blueEdges = Inr adj \<and>
           adj_of adj (colored_edges redEdges blueEdges) n \<and>
           bfs adj (initial_state n) = Inr (visited, dist, []) \<and>
           binv (colored_edges redEdges blueEdges) n lst [] (visited, dist, [])"
  using search_cases [OF v] no_overflow_small [OF n] by blast

lemma sap_correct:
  assumes v: "valid_input n redEdges blueEdges" and n: "n \<le> 2 ^ 30"
  shows "\<exists>res. shortestAlternatingPaths n redEdges blueEdges = Inr res \<and>
           length res = nat n \<and>
           (\<forall>i. 0 \<le> i \<longrightarrow> i < n \<longrightarrow> expected (colored_edges redEdges blueEdges) i (res ! nat i))"
proof -
  let ?E = "colored_edges redEdges blueEdges"
  from v have n1: "1 \<le> n" by (simp add: valid_input_def)
  from search_ok [OF v n] obtain adj0 adj visited dist lst where
    b: "add_edges 0 (replicate (nat n) []) redEdges = Inr adj0"
       "add_edges 1 adj0 blueEdges = Inr adj"
    and run: "bfs adj (initial_state n) = Inr (visited, dist, [])"
    and inv: "binv ?E n lst [] (visited, dist, [])" by blast
  from b run n1
  have 1: "shortestAlternatingPaths n redEdges blueEdges = Inr (unreachable_to_minus_one dist)"
    by (simp add: shortestAlternatingPaths_def)
  from inv have 2: "length (unreachable_to_minus_one dist) = nat n"
    by (simp add: binv_def shape_def unreachable_to_minus_one_def)
  from graph_ok_two_colors [OF colored_edges_ok [OF v]] have tc: "two_colors ?E" .
  from final_expected [OF inv tc n]
  have 3: "\<forall>i. 0 \<le> i \<longrightarrow> i < n \<longrightarrow> expected ?E i (unreachable_to_minus_one dist ! nat i)"
    by blast
  from 1 2 3 show ?thesis by blast
qed


subsection \<open>Inputs outside the contract\<close>

lemma add_edges_length:
  "add_edges col adj es = Inr adj' \<Longrightarrow> length adj' = length adj"
proof (induction es arbitrary: adj)
  case Nil
  then show ?case by simp
next
  case (Cons e es)
  from Cons.prems obtain adj1 where 1: "add_edge col adj e = Inr adj1"
    and 2: "add_edges col adj1 es = Inr adj'" by (auto split: sum.splits)
  from 1 have "length adj1 = length adj" by (auto simp: add_edge_def split: if_splits)
  with Cons.IH [OF 2] show ?case by simp
qed

lemma add_edges_error: "add_edges col adj es = Inl err \<Longrightarrow> err = OutOfBounds"
proof (induction es arbitrary: adj)
  case Nil
  then show ?case by simp
next
  case (Cons e es)
  then show ?case
    by (auto simp: add_edge_def split: sum.splits if_splits)
qed

lemma add_edges_bad_source:
  assumes "e \<in> set es" and "length e < 2 \<or> e ! 0 < 0 \<or> int (length adj) \<le> e ! 0"
  shows "add_edges col adj es = Inl OutOfBounds"
  using assms
proof (induction es arbitrary: adj)
  case Nil
  then show ?case by simp
next
  case (Cons x es)
  show ?case
  proof (cases "add_edge col adj x")
    case (Inl err)
    then have "err = OutOfBounds" by (auto simp: add_edge_def split: if_splits)
    with Inl show ?thesis by simp
  next
    case (Inr adj1)
    then have len: "length adj1 = length adj" and ok: "\<not> (length x < 2 \<or> x ! 0 < 0 \<or> int (length adj) \<le> x ! 0)"
      by (auto simp: add_edge_def split: if_splits)
    with Cons.prems have "e \<in> set es" by auto
    from Cons.IH [OF this, of adj1] Cons.prems(2) len Inr show ?thesis by simp
  qed
qed

lemma sap_bad_source:
  assumes n: "0 \<le> n" and e: "e \<in> set redEdges \<union> set blueEdges"
    and bad: "length e < 2 \<or> e ! 0 < 0 \<or> n \<le> e ! 0"
  shows "shortestAlternatingPaths n redEdges blueEdges = Inl OutOfBounds"
proof (cases "add_edges 0 (replicate (nat n) []) redEdges")
  case (Inl err)
  with add_edges_error [OF Inl] n show ?thesis by (simp add: shortestAlternatingPaths_def)
next
  case (Inr adj0)
  from add_edges_length [OF Inr] n have len: "int (length adj0) = n" by simp
  have "e \<notin> set redEdges"
  proof
    assume "e \<in> set redEdges"
    from add_edges_bad_source [OF this, of "replicate (nat n) []" 0] bad n Inr show False by simp
  qed
  with e have "e \<in> set blueEdges" by simp
  from add_edges_bad_source [OF this, of adj0 1] bad len
  have "add_edges 1 adj0 blueEdges = Inl OutOfBounds" by simp
  with Inr n show ?thesis by (simp add: shortestAlternatingPaths_def)
qed

subsection \<open>The result is determined by the walks\<close>

lemma final_range:
  assumes inv: "binv E n lst [] (visited, dist, [])" and tc: "two_colors E"
    and i: "0 \<le> i" "i < n"
  shows "unreachable_to_minus_one dist ! nat i = - 1 \<or>
         (0 \<le> unreachable_to_minus_one dist ! nat i \<and>
          unreachable_to_minus_one dist ! nat i < INT_MAX)"
proof -
  let ?r = "unreachable_to_minus_one dist ! nat i"
  show ?thesis
  proof (cases "\<exists>w. alternating_walk E 0 w i \<and> int (length w) < INT_MAX")
    case True
    with final_capped [OF inv tc i] have sw: "shortest_walk E i ?r" by (simp add: capped_def)
    from True obtain w where "alternating_walk E 0 w i" "int (length w) < INT_MAX" by blast
    with sw have "?r < INT_MAX" unfolding shortest_walk_def by force
    moreover from sw have "0 \<le> ?r" unfolding shortest_walk_def by force
    ultimately show ?thesis by simp
  next
    case False
    with final_capped [OF inv tc i] show ?thesis by (auto simp: capped_def)
  qed
qed



definition swap_color :: "cedge \<Rightarrow> cedge" where
  "swap_color e = (case e of (u, v, c) \<Rightarrow> (u, v, 1 - c))"

lemma swap_color_swap [simp]: "swap_color (swap_color e) = e"
  by (cases e) (simp add: swap_color_def)


lemma colored_edges_swap:
  "colored_edges blueEdges redEdges = swap_color ` colored_edges redEdges blueEdges"
  by (auto simp: colored_edges_def swap_color_def image_Un image_image)




lemma valid_input_swap: "valid_input n blueEdges redEdges = valid_input n redEdges blueEdges"
  by (auto simp: valid_input_def)

subsection \<open>Assigning on the first visit of a node\<close>




subsection \<open>What the queue goes through\<close>

lemma visited_set_mark:
  assumes v: "0 \<le> v" "nat v < length visited" and c: "0 \<le> c" "nat c < length (visited ! nat v)"
  shows "visited_set (visited[nat v := (visited ! nat v)[nat c := True]]) =
         insert (v, c) (visited_set visited)"
proof -
  have eq: "nat w = nat v \<longleftrightarrow> w = v" if "0 \<le> w" for w using that v(1) by auto
  have eqc: "nat b = nat c \<longleftrightarrow> b = c" if "0 \<le> b" for b using that c(1) by auto
  show ?thesis
    unfolding visited_set_def using v c
    by (auto simp: nth_list_update eq eqc split: if_splits)
qed

lemma visit_step:
  assumes "visit d p ne (visited, dist, q) = Inr (visited', dist', q')"
  shows "(visited' = visited \<and> dist' = dist \<and> q' = q) \<or>
         (\<exists>v c. ne = (v, c) \<and> (v, c) \<notin> visited_set visited \<and>
            visited_set visited' = insert (v, c) (visited_set visited) \<and>
            q' = q @ [(v, d + 1, c)])"
proof -
  obtain v c where ne: "ne = (v, c)" by (cases ne)
  show ?thesis
  proof (cases "c \<noteq> p \<and> \<not> visited ! nat v ! nat c")
    case False
    with assms ne show ?thesis by (auto simp: visit_def split: if_splits)
  next
    case True
    with assms ne have r: "0 \<le> v" "nat v < length visited" "0 \<le> c"
      "nat c < length (visited ! nat v)"
      and upd: "visited' = visited[nat v := (visited ! nat v)[nat c := True]]"
      and q': "q' = q @ [(v, d + 1, c)]"
      by (auto simp: visit_def split: if_splits)
    from True have "(v, c) \<notin> visited_set visited" by (simp add: visited_set_def)
    with visited_set_mark [OF r] upd q' ne show ?thesis by simp
  qed
qed

lemma relax_pushes:
  "relax d p nes (visited, dist, q) = Inr (visited', dist', q') \<Longrightarrow>
   \<exists>new. q' = q @ new \<and> distinct (map entry_state new) \<and>
     entry_state ` set new \<inter> visited_set visited = {} \<and>
     visited_set visited' = visited_set visited \<union> entry_state ` set new"
proof (induction nes arbitrary: visited dist q)
  case Nil
  then show ?case by simp
next
  case (Cons ne nes)
  from Cons.prems obtain v1 d1 q1 where
    1: "visit d p ne (visited, dist, q) = Inr (v1, d1, q1)"
    and 2: "relax d p nes (v1, d1, q1) = Inr (visited', dist', q')"
    by (auto split: sum.splits)
  from Cons.IH [OF 2] obtain new where new: "q' = q1 @ new" "distinct (map entry_state new)"
    "entry_state ` set new \<inter> visited_set v1 = {}"
    "visited_set visited' = visited_set v1 \<union> entry_state ` set new" by blast
  from visit_step [OF 1] show ?case
  proof
    assume "v1 = visited \<and> d1 = dist \<and> q1 = q"
    with new show ?thesis by blast
  next
    assume "\<exists>v c. ne = (v, c) \<and> (v, c) \<notin> visited_set visited \<and>
            visited_set v1 = insert (v, c) (visited_set visited) \<and> q1 = q @ [(v, d + 1, c)]"
    then obtain v c where vc: "(v, c) \<notin> visited_set visited"
      "visited_set v1 = insert (v, c) (visited_set visited)" "q1 = q @ [(v, d + 1, c)]" by blast
    let ?new = "(v, d + 1, c) # new"
    have es: "entry_state (v, d + 1, c) = (v, c)" by (simp add: entry_state_def)
    from new(1) vc(3) have a: "q' = q @ ?new" by simp
    from new(2,3) vc(2) es have b: "distinct (map entry_state ?new)" by auto
    from new(3) vc(1,2) es have c: "entry_state ` set ?new \<inter> visited_set visited = {}" by auto
    from new(4) vc(2) es have d: "visited_set visited' = visited_set visited \<union> entry_state ` set ?new"
      by auto
    from a b c d show ?thesis by blast
  qed
qed

definition hinv :: "history \<Rightarrow> bfs_state \<Rightarrow> bool" where
  "hinv h s =
     (case s of (visited, dist, q) \<Rightarrow>
        pushed h = popped h @ q \<and> distinct (map entry_state (pushed h)) \<and>
        entry_state ` set (pushed h) = visited_set visited)"

lemma hinv_step:
  assumes h: "hinv h (visited, dist, cur # q)"
    and r: "relax d p nes (visited, dist, q) = Inr (visited', dist', q')"
  shows "hinv \<lparr>pushed = pushed h @ drop (length q) q', popped = popped h @ [cur]\<rparr>
           (visited', dist', q')"
proof -
  from relax_pushes [OF r] obtain new where new: "q' = q @ new" "distinct (map entry_state new)"
    "entry_state ` set new \<inter> visited_set visited = {}"
    "visited_set visited' = visited_set visited \<union> entry_state ` set new" by blast
  from new(1) have dr: "drop (length q) q' = new" by simp
  from h have "pushed h = popped h @ cur # q \<and> distinct (map entry_state (pushed h)) \<and>
      entry_state ` set (pushed h) = visited_set visited"
    unfolding hinv_def prod.case .
  then have p: "pushed h = popped h @ cur # q" and di: "distinct (map entry_state (pushed h))"
    and st: "entry_state ` set (pushed h) = visited_set visited"
    by blast+
  from di new(2,3) st have "distinct (map entry_state (pushed h @ new))" by auto
  moreover from st new(4) have "entry_state ` set (pushed h @ new) = visited_set visited'"
    by auto
  ultimately show ?thesis using p new(1) dr by (simp add: hinv_def)
qed

lemma bfs_history_bfs:
  "bfs adj s = Inr s' \<Longrightarrow> hinv h s \<Longrightarrow>
   \<exists>h'. bfs_history adj s h = Inr (s', h') \<and> hinv h' s'"
proof (induction adj s arbitrary: h rule: bfs.induct)
  case (1 adj visited dist)
  then show ?case by auto
next
  case (2 adj visited dist u d p q)
  from "2.prems"(1) have u: "\<not> (u < 0 \<or> int (length adj) \<le> u)"
    by (auto split: if_splits)
  with "2.prems"(1) obtain s1 where r: "relax d p (adj ! nat u) (visited, dist, q) = Inr s1"
    and b: "bfs adj s1 = Inr s'" by (auto split: sum.splits)
  obtain visited1 dist1 q1 where s1: "s1 = (visited1, dist1, q1)" by (cases s1)
  let ?h1 = "\<lparr>pushed = pushed h @ drop (length q) q1, popped = popped h @ [(u, d, p)]\<rparr>"
  from hinv_step [OF "2.prems"(2) r [unfolded s1]] have "hinv ?h1 s1" by (simp add: s1)
  from "2.IH" [OF u r b this] obtain h' where
    "bfs_history adj s1 ?h1 = Inr (s', h')" "hinv h' s'" by blast
  with u r s1 show ?case by auto
qed

lemma visited_set_card:
  assumes "shape n visited dist" and "0 \<le> n"
  shows "finite (visited_set visited)" and "int (card (visited_set visited)) \<le> 2 * n"
proof -
  have sub: "visited_set visited \<subseteq> {0 ..< n} \<times> {0 ..< 2}"
  proof
    fix s assume s: "s \<in> visited_set visited"
    obtain v c where vc: "s = (v, c)" by (cases s)
    from s vc have v: "0 \<le> v" "nat v < length visited" and c: "0 \<le> c"
      "c < int (length (visited ! nat v))"
      by (auto simp: visited_set_def)
    from v assms have "length (visited ! nat v) = 2" "v < n" by (auto simp: shape_def)
    with v c vc show "s \<in> {0 ..< n} \<times> {0 ..< 2}" by simp
  qed
  have fin: "finite ({0 ..< n} \<times> {0 ..< (2 :: int)})" by simp
  from finite_subset [OF sub fin] show "finite (visited_set visited)" .
  from card_mono [OF fin sub] have "card (visited_set visited) \<le> nat n * 2"
    by (simp add: card_cartesian_product)
  with assms(2) show "int (card (visited_set visited)) \<le> 2 * n" by linarith
qed

lemma history_ok:
  assumes v: "valid_input n redEdges blueEdges" and n: "n \<le> 2 ^ 30"
  shows "\<exists>res visited h.
           shortestAlternatingPaths_history n redEdges blueEdges = Inr (res, visited, h) \<and>
           shortestAlternatingPaths n redEdges blueEdges = Inr res \<and>
           popped h = pushed h \<and> distinct (map entry_state (pushed h)) \<and>
           entry_state ` set (pushed h) = visited_set visited \<and>
           int (length (pushed h)) \<le> 2 * n"
proof -
  let ?E = "colored_edges redEdges blueEdges"
  from v have n1: "1 \<le> n" by (simp add: valid_input_def)
  from search_ok [OF v n] obtain adj0 adj visited dist lst where
    b: "add_edges 0 (replicate (nat n) []) redEdges = Inr adj0"
       "add_edges 1 adj0 blueEdges = Inr adj"
    and a: "adj_of adj ?E n"
    and run: "bfs adj (initial_state n) = Inr (visited, dist, [])"
    and inv: "binv ?E n lst [] (visited, dist, [])" by blast
  from initial_binv [OF n1 a] obtain visited0 dist0 where
    init: "initial_state n = (visited0, dist0, [(0, 0, 0), (0, 0, 1)])"
    and inv0: "binv ?E n (0, 0, 0) (adj ! nat (fst ((0, 0, 0) :: entry)))
                 (visited0, dist0, [(0, 0, 1)])"
    by blast
  let ?h0 = "\<lparr>pushed = snd (snd (initial_state n)), popped = []\<rparr>"
  have V0: "visited_set visited0 = {(0, 0), (0, 1)}"
  proof -
    from initial_state_eq [OF n1] init n1
    have "visited0 = (replicate (nat n) [False, False])[0 := [True, True]]" by simp
    with initial_visited_set [OF n1] show ?thesis by simp
  qed
  have h0: "hinv ?h0 (initial_state n)"
    unfolding init by (simp add: hinv_def entry_state_def V0)
  from bfs_history_bfs [OF run h0] obtain h where
    hist: "bfs_history adj (initial_state n) ?h0 = Inr ((visited, dist, []), h)"
    and h: "hinv h (visited, dist, [])" by blast
  from h have "pushed h = popped h @ [] \<and> distinct (map entry_state (pushed h)) \<and>
      entry_state ` set (pushed h) = visited_set visited"
    unfolding hinv_def prod.case .
  then have 1: "popped h = pushed h" and 2: "distinct (map entry_state (pushed h))"
    and 3: "entry_state ` set (pushed h) = visited_set visited"
    by auto
  from inv have sh: "shape n visited dist" by (simp add: binv_def)
  from 2 have "length (pushed h) = card (entry_state ` set (pushed h))"
    using distinct_card [of "map entry_state (pushed h)"] by simp
  with 3 visited_set_card(2) [OF sh] n1 have 4: "int (length (pushed h)) \<le> 2 * n" by simp
  from b run n1
  have 5: "shortestAlternatingPaths n redEdges blueEdges = Inr (unreachable_to_minus_one dist)"
    by (simp add: shortestAlternatingPaths_def)
  from b hist n1
  have 6: "shortestAlternatingPaths_history n redEdges blueEdges =
      Inr (unreachable_to_minus_one dist, visited, h)"
    by (simp add: shortestAlternatingPaths_history_def)
  from 1 2 3 4 5 6 show ?thesis by blast
qed

subsection \<open>Runs that reach \<open>INT_MAX\<close>\<close>

lemma sap_overflow:
  assumes v: "valid_input n redEdges blueEdges"
    and r: "reach (colored_edges redEdges blueEdges) k s"
    and far: "\<forall>k'. reach (colored_edges redEdges blueEdges) k' s \<longrightarrow> INT_MAX < k'"
  shows "\<exists>adj0 adj. add_edges 0 (replicate (nat n) []) redEdges = Inr adj0 \<and>
           add_edges 1 adj0 blueEdges = Inr adj \<and>
           bfs adj (initial_state n) = Inl SignedOverflow"
proof -
  let ?E = "colored_edges redEdges blueEdges"
  from search_cases [OF v] obtain adj0 adj where
    b: "add_edges 0 (replicate (nat n) []) redEdges = Inr adj0"
       "add_edges 1 adj0 blueEdges = Inr adj"
    and c: "(\<exists>visited dist lst. bfs adj (initial_state n) = Inr (visited, dist, []) \<and>
               binv ?E n lst [] (visited, dist, [])) \<or>
            (bfs adj (initial_state n) = Inl SignedOverflow \<and> overflows ?E n)"
    by blast
  have "\<not> (\<exists>visited dist lst. bfs adj (initial_state n) = Inr (visited, dist, []) \<and>
               binv ?E n lst [] (visited, dist, []))"
  proof
    assume "\<exists>visited dist lst. bfs adj (initial_state n) = Inr (visited, dist, []) \<and>
               binv ?E n lst [] (visited, dist, [])"
    then obtain visited dist lst where "binv ?E n lst [] (visited, dist, [])" by blast
    from final_within_int [OF this r] far show False by force
  qed
  with c b show ?thesis by blast
qed

lemma sap_capped:
  assumes v: "valid_input n redEdges blueEdges"
    and near: "\<forall>s k. reach (colored_edges redEdges blueEdges) k s \<longrightarrow> k \<le> INT_MAX"
  shows "\<exists>res. shortestAlternatingPaths n redEdges blueEdges = Inr res \<and>
           length res = nat n \<and>
           (\<forall>i. 0 \<le> i \<longrightarrow> i < n \<longrightarrow> capped (colored_edges redEdges blueEdges) i (res ! nat i))"
proof -
  let ?E = "colored_edges redEdges blueEdges"
  from v have n1: "1 \<le> n" by (simp add: valid_input_def)
  have "\<not> overflows ?E n"
  proof
    assume "overflows ?E n"
    then obtain s where "reach ?E (INT_MAX + 1) s" by (auto simp: overflows_def shortest_def)
    with near have "INT_MAX + 1 \<le> INT_MAX" by blast
    then show False by simp
  qed
  with search_cases [OF v] obtain adj0 adj visited dist lst where
    b: "add_edges 0 (replicate (nat n) []) redEdges = Inr adj0"
       "add_edges 1 adj0 blueEdges = Inr adj"
    and run: "bfs adj (initial_state n) = Inr (visited, dist, [])"
    and inv: "binv ?E n lst [] (visited, dist, [])" by blast
  from b run n1
  have 1: "shortestAlternatingPaths n redEdges blueEdges = Inr (unreachable_to_minus_one dist)"
    by (simp add: shortestAlternatingPaths_def)
  from inv have 2: "length (unreachable_to_minus_one dist) = nat n"
    by (simp add: binv_def shape_def unreachable_to_minus_one_def)
  from graph_ok_two_colors [OF colored_edges_ok [OF v]] have tc: "two_colors ?E" .
  from final_capped [OF inv tc]
  have 3: "\<forall>i. 0 \<le> i \<longrightarrow> i < n \<longrightarrow> capped ?E i (unreachable_to_minus_one dist ! nat i)"
    by blast
  from 1 2 3 show ?thesis by blast
qed

lemma bfs_history_error:
  "bfs adj s = Inl err \<Longrightarrow> bfs_history adj s h = Inl err"
proof (induction adj s arbitrary: h rule: bfs.induct)
  case (1 adj visited dist)
  then show ?case by simp
next
  case (2 adj visited dist u d p q)
  show ?case
  proof (cases "u < 0 \<or> int (length adj) \<le> u")
    case True
    with "2.prems" show ?thesis by simp
  next
    case False
    show ?thesis
    proof (cases "relax d p (adj ! nat u) (visited, dist, q)")
      case (Inl e)
      with False "2.prems" show ?thesis by simp
    next
      case (Inr s1)
      obtain visited1 dist1 q1 where s1: "s1 = (visited1, dist1, q1)" by (cases s1)
      from False Inr "2.prems" have "bfs adj s1 = Inl err" by simp
      from "2.IH" [OF False Inr this] False Inr s1 show ?thesis by simp
    qed
  qed
qed

lemma overflow_results:
  assumes v: "valid_input n redEdges blueEdges"
    and r: "reach (colored_edges redEdges blueEdges) k s"
    and far: "\<forall>k'. reach (colored_edges redEdges blueEdges) k' s \<longrightarrow> INT_MAX < k'"
  shows "shortestAlternatingPaths n redEdges blueEdges = Inl SignedOverflow"
    and "shortestAlternatingPaths_history n redEdges blueEdges = Inl SignedOverflow"
proof -
  from v have n1: "1 \<le> n" by (simp add: valid_input_def)
  from sap_overflow [OF v r far] obtain adj0 adj where
    b: "add_edges 0 (replicate (nat n) []) redEdges = Inr adj0"
       "add_edges 1 adj0 blueEdges = Inr adj"
    and o: "bfs adj (initial_state n) = Inl SignedOverflow" by blast
  from b o n1 show "shortestAlternatingPaths n redEdges blueEdges = Inl SignedOverflow"
    by (simp add: shortestAlternatingPaths_def)
  from bfs_history_error [OF o] b n1
  show "shortestAlternatingPaths_history n redEdges blueEdges = Inl SignedOverflow"
    by (simp add: shortestAlternatingPaths_history_def)
qed

lemma reach_swap:
  "reach (swap_color ` E) k s \<Longrightarrow> reach E k (fst s, 1 - snd s)"
proof (induction rule: reach.induct)
  case reach_red
  show ?case by (simp add: reach_blue)
next
  case reach_blue
  show ?case by (simp add: reach_red)
next
  case (reach_step k u p v c)
  from reach_step.hyps(2) obtain e where e: "e \<in> E" "(u, v, c) = swap_color e" by blast
  then have "(u, v, 1 - c) \<in> E" by (cases e) (auto simp: swap_color_def)
  moreover from reach_step.hyps(3) have "1 - c \<noteq> 1 - p" by simp
  ultimately have "reach E (k + 1) (v, 1 - c)"
    using reach_step.IH by (auto intro: reach.reach_step)
  then show ?case by simp
qed

lemma reach_swap_iff:
  "reach (swap_color ` E) k (v, 1 - c) \<longleftrightarrow> reach E k (v, c)"
proof
  assume "reach (swap_color ` E) k (v, 1 - c)"
  from reach_swap [OF this] show "reach E k (v, c)" by simp
next
  assume "reach E k (v, c)"
  moreover have "swap_color ` swap_color ` E = E" by (simp add: image_image)
  ultimately have "reach (swap_color ` swap_color ` E) k (v, c)" by simp
  from reach_swap [OF this] show "reach (swap_color ` E) k (v, 1 - c)" by simp
qed

subsection \<open>A chain of more than \<open>2^30\<close> nodes\<close>

text \<open>
  \<open>N\<close> nodes, \<open>N\<close> odd: a red edge from every node to the next, a blue edge from every node
  between 1 and \<open>N - 3\<close> to the next, and a blue edge from node \<open>N - 2\<close> back to node 1.
  The only alternating walk from node 0 runs up to node \<open>N - 2\<close>, which it enters by a red
  edge, goes back to node 1 by the blue edge, runs up again with the colours exchanged and
  leaves node \<open>N - 2\<close> by the red edge to node \<open>N - 1\<close>: \<open>2N - 3\<close> edges. For \<open>N = 5\<close>
  this is red \<open>[[0,1],[1,2],[2,3],[3,4]]\<close>, blue \<open>[[1,2],[2,3],[3,1]]\<close>, result
  \<open>[0,1,2,3,7]\<close>.
\<close>

definition chain_red :: "int \<Rightarrow> edge list" where
  "chain_red N = map (\<lambda>i. [i, i + 1]) [0..N - 2]"

definition chain_blue :: "int \<Rightarrow> edge list" where
  "chain_blue N = map (\<lambda>i. [i, i + 1]) [1..N - 3] @ [[N - 2, 1]]"

definition chain_state :: "int \<Rightarrow> int \<Rightarrow> int \<times> int" where
  "chain_state N k =
     (if k \<le> N - 2 then k else if k \<le> 2 * N - 4 then k - N + 2 else N - 1, (k + 1) mod 2)"

text \<open>The member with five nodes, run.\<close>
lemma chain_five:
  "chain_red 5 = [[0, 1], [1, 2], [2, 3], [3, 4]] \<and> chain_blue 5 = [[1, 2], [2, 3], [3, 1]] \<and>
   shortestAlternatingPaths 5 (chain_red 5) (chain_blue 5) = Inr [0, 1, 2, 3, 7]"
  by code_simp

lemma chain_valid: "3 \<le> N \<Longrightarrow> valid_input N (chain_red N) (chain_blue N)"
  by (auto simp: valid_input_def endpoints_in_range_def chain_red_def chain_blue_def)

lemma chain_edge:
  "(u, v, c) \<in> colored_edges (chain_red N) (chain_blue N) \<longleftrightarrow>
     (c = 0 \<and> 0 \<le> u \<and> u \<le> N - 2 \<and> v = u + 1) \<or>
     (c = 1 \<and> ((1 \<le> u \<and> u \<le> N - 3 \<and> v = u + 1) \<or> (u = N - 2 \<and> v = 1)))"
proof -
  have "colored_edges (chain_red N) (chain_blue N) =
          (\<lambda>i. (i, i + 1, 0)) ` {0..N - 2} \<union>
          ((\<lambda>i. (i, i + 1, 1)) ` {1..N - 3} \<union> {(N - 2, 1, 1)})"
    by (simp add: colored_edges_def chain_red_def chain_blue_def image_image image_Un)
  then show ?thesis by auto
qed

lemma chain_node_cases:
  assumes "1 \<le> k" "k \<le> 2 * N - 3" "3 \<le> (N :: int)"
  obtains "k \<le> N - 3" | "k = N - 2" | "N - 1 \<le> k" "k \<le> 2 * N - 5" | "k = 2 * N - 4"
    | "k = 2 * N - 3"
  using assms by linarith

lemma chain_reach_only:
  assumes N: "3 \<le> N" "odd N"
  shows "reach (colored_edges (chain_red N) (chain_blue N)) k s \<Longrightarrow>
         (k = 0 \<and> (s = (0, 0) \<or> s = (0, 1))) \<or>
         (1 \<le> k \<and> k \<le> 2 * N - 3 \<and> s = chain_state N k)"
proof (induction rule: reach.induct)
  case reach_red
  show ?case by simp
next
  case reach_blue
  show ?case by simp
next
  case (reach_step k u p v c)
  from reach_step.hyps(2) have e:
    "(c = 0 \<and> 0 \<le> u \<and> u \<le> N - 2 \<and> v = u + 1) \<or>
     (c = 1 \<and> ((1 \<le> u \<and> u \<le> N - 3 \<and> v = u + 1) \<or> (u = N - 2 \<and> v = 1)))"
    by (simp add: chain_edge)
  then have c01: "c = 0 \<or> c = 1" by blast
  from N(2) have m1: "(N - 1) mod 2 = 0" and m2: "(2 * N - 3) mod 2 = 1" by presburger+
  note cp = reach_step.hyps(3)
  from reach_step.IH show ?case
  proof
    assume "k = 0 \<and> ((u, p) = (0, 0) \<or> (u, p) = (0, 1))"
    then have k0: "k = 0" and u0: "u = 0" by auto
    with e N(1) have "c = 0" "v = 1" by auto
    with k0 N(1) show ?thesis by (simp add: chain_state_def)
  next
    assume "1 \<le> k \<and> k \<le> 2 * N - 3 \<and> (u, p) = chain_state N k"
    then have k: "1 \<le> k" "k \<le> 2 * N - 3"
      and u: "u = (if k \<le> N - 2 then k else if k \<le> 2 * N - 4 then k - N + 2 else N - 1)"
      and p: "p = (k + 1) mod 2"
      by (simp_all add: chain_state_def)
    from c01 cp p have c: "c = (k + 1 + 1) mod 2" by presburger
    have "k + 1 \<le> 2 * N - 3 \<and>
          v = (if k + 1 \<le> N - 2 then k + 1
               else if k + 1 \<le> 2 * N - 4 then k + 1 - N + 2 else N - 1)"
      using k N(1)
    proof (cases rule: chain_node_cases)
      case 1
      with u k have "u = k" "1 \<le> u" "u \<le> N - 3" by simp_all
      with e have "v = k + 1" by auto
      with 1 N(1) k show ?thesis by simp
    next
      case 2
      with u have u2: "u = N - 2" by simp
      from 2 p m1 have "p = 0" by simp
      with cp c01 have "c = 1" by simp
      with e u2 have "v = 1" by auto
      with 2 N(1) show ?thesis by simp
    next
      case 3
      with u N(1) have "u = k - N + 2" "1 \<le> u" "u \<le> N - 3" by simp_all
      with e have "v = k - N + 2 + 1" by auto
      with 3 N(1) show ?thesis by simp
    next
      case 4
      with u N(1) have u2: "u = N - 2" by simp
      from 4 p m2 have "p = 1" by simp
      with cp c01 have "c = 0" by simp
      with e u2 have "v = N - 1" by auto
      with 4 N(1) show ?thesis by simp
    next
      case 5
      with u N(1) have "u = N - 1" by simp
      with e show ?thesis by auto
    qed
    with c k show ?thesis by (simp add: chain_state_def)
  qed
qed

lemma chain_reach:
  assumes N: "3 \<le> N" "odd N"
  shows "1 \<le> k \<Longrightarrow> k \<le> 2 * N - 3 \<Longrightarrow>
         reach (colored_edges (chain_red N) (chain_blue N)) k (chain_state N k)"
proof (induction k rule: int_ge_induct)
  case base
  have "reach (colored_edges (chain_red N) (chain_blue N)) (0 + 1) (1, 0)"
    by (rule reach_step [OF reach_blue]) (use N(1) in \<open>simp_all add: chain_edge\<close>)
  with N(1) show ?case by (simp add: chain_state_def)
next
  case (step k)
  let ?E = "colored_edges (chain_red N) (chain_blue N)"
  from N(2) have m1: "N mod 2 = 1" and m2: "(2 * N - 2) mod 2 = 0" by presburger+
  from step have r: "reach ?E k (chain_state N k)" and k: "1 \<le> k" "k + 1 \<le> 2 * N - 3"
    by simp_all
  obtain u p where up: "chain_state N k = (u, p)" by (cases "chain_state N k")
  obtain v c where vc: "chain_state N (k + 1) = (v, c)" by (cases "chain_state N (k + 1)")
  from up have u: "u = (if k \<le> N - 2 then k else if k \<le> 2 * N - 4 then k - N + 2 else N - 1)"
    and p: "p = (k + 1) mod 2" by (simp_all add: chain_state_def)
  from vc have v: "v = (if k + 1 \<le> N - 2 then k + 1
                        else if k + 1 \<le> 2 * N - 4 then k + 1 - N + 2 else N - 1)"
    and c: "c = (k + 1 + 1) mod 2" by (simp_all add: chain_state_def)
  from p c have cp: "c \<noteq> p" by presburger
  from c have c01: "c = 0 \<or> c = 1" by presburger
  from k have k': "1 \<le> k" "k \<le> 2 * N - 3" by simp_all
  have "(c = 0 \<and> 0 \<le> u \<and> u \<le> N - 2 \<and> v = u + 1) \<or>
     (c = 1 \<and> ((1 \<le> u \<and> u \<le> N - 3 \<and> v = u + 1) \<or> (u = N - 2 \<and> v = 1)))"
    using k' N(1)
  proof (cases rule: chain_node_cases)
    case 1
    with u v k have "u = k" "v = k + 1" "1 \<le> u" "u \<le> N - 3" by simp_all
    with c01 show ?thesis by auto
  next
    case 2
    with u v N(1) have "u = N - 2" "v = 1" by simp_all
    moreover from 2 c m1 have "c = 1" by simp
    ultimately show ?thesis by simp
  next
    case 3
    with u v N(1) have "u = k - N + 2" "v = k - N + 2 + 1" "1 \<le> u" "u \<le> N - 3" by simp_all
    with c01 show ?thesis by auto
  next
    case 4
    with u v N(1) have "u = N - 2" "v = N - 1" by simp_all
    moreover from 4 c m2 have "c = 0" by simp
    ultimately show ?thesis using N(1) by simp
  next
    case 5
    with k show ?thesis by simp
  qed
  then have e: "(u, v, c) \<in> ?E" by (simp add: chain_edge)
  from reach_step [OF r [unfolded up] e cp] vc show ?case by simp
qed

lemma chain_last_only:
  assumes N: "3 \<le> N" "odd N"
    and r: "reach (colored_edges (chain_red N) (chain_blue N)) k (N - 1, c)"
  shows "k = 2 * N - 3"
proof -
  from chain_reach_only [OF N r] N(1) show ?thesis
    by (auto simp: chain_state_def split: if_splits)
qed

lemma chain_last: 
  assumes N: "3 \<le> N" "odd N"
  shows "reach (colored_edges (chain_red N) (chain_blue N)) (2 * N - 3) (N - 1, 0)"
proof -
  from N(2) have odd: "N mod 2 = 1" by presburger
  from odd have "(2 * N - 3 + 1) mod 2 = 0" by presburger
  with N(1) have "chain_state N (2 * N - 3) = (N - 1, 0)"
    by (simp add: chain_state_def)
  with chain_reach [OF N, of "2 * N - 3"] N(1) show ?thesis by simp
qed

lemma chain_far:
  assumes N: "3 \<le> N" "odd N" and big: "INT_MAX < 2 * N - 3"
  shows "\<forall>k'. reach (colored_edges (chain_red N) (chain_blue N)) k' (N - 1, 0) \<longrightarrow> INT_MAX < k'"
  using chain_last_only [OF N] big by blast

lemma chain_overflows:
  assumes N: "3 \<le> N" "odd N" and big: "INT_MAX < 2 * N - 3"
  shows "shortestAlternatingPaths N (chain_red N) (chain_blue N) = Inl SignedOverflow"
    and "shortestAlternatingPaths_history N (chain_red N) (chain_blue N) = Inl SignedOverflow"
    and "shortestAlternatingPaths N (chain_blue N) (chain_red N) = Inl SignedOverflow"
    and "shortestAlternatingPaths N (rev (chain_red N)) (rev (chain_blue N)) = Inl SignedOverflow"
proof -
  let ?E = "colored_edges (chain_red N) (chain_blue N)"
  note v = chain_valid [OF N(1)]
  note r = chain_last [OF N]
  note far = chain_far [OF N big]
  from overflow_results [OF v r far]
  show "shortestAlternatingPaths N (chain_red N) (chain_blue N) = Inl SignedOverflow"
    and "shortestAlternatingPaths_history N (chain_red N) (chain_blue N) = Inl SignedOverflow"
    by simp_all
  have sw: "colored_edges (chain_blue N) (chain_red N) = swap_color ` ?E"
    by (rule colored_edges_swap)
  from v have v': "valid_input N (chain_blue N) (chain_red N)" by (simp add: valid_input_swap)
  from r have r': "reach (colored_edges (chain_blue N) (chain_red N)) (2 * N - 3) (N - 1, 1 - 0)"
    unfolding sw by (simp only: reach_swap_iff)
  from far have far': "\<forall>k'. reach (colored_edges (chain_blue N) (chain_red N)) k' (N - 1, 1 - 0)
      \<longrightarrow> INT_MAX < k'"
    unfolding sw by (simp only: reach_swap_iff)
  from overflow_results(1) [OF v' r' far']
  show "shortestAlternatingPaths N (chain_blue N) (chain_red N) = Inl SignedOverflow" .
  have E: "colored_edges (rev (chain_red N)) (rev (chain_blue N)) = ?E"
    by (simp add: colored_edges_def)
  from v have vr: "valid_input N (rev (chain_red N)) (rev (chain_blue N))"
    by (simp add: valid_input_def endpoints_in_range_def)
  from overflow_results(1) [OF vr] r far E
  show "shortestAlternatingPaths N (rev (chain_red N)) (rev (chain_blue N)) = Inl SignedOverflow"
    by simp
qed

lemma chain_collides:
  assumes N: "3 \<le> N" "odd N" and lim: "2 * N - 3 = INT_MAX"
  shows "\<exists>w. alternating_walk (colored_edges (chain_red N) (chain_blue N)) 0 w (N - 1)"
    and "\<exists>res. shortestAlternatingPaths N (chain_red N) (chain_blue N) = Inr res \<and>
           res ! nat (N - 1) = - 1"
proof -
  let ?E = "colored_edges (chain_red N) (chain_blue N)"
  note v = chain_valid [OF N(1)]
  from graph_ok_two_colors [OF colored_edges_ok [OF v]] have tc: "two_colors ?E" .
  from reach_walk [OF chain_last [OF N]]
  show "\<exists>w. alternating_walk ?E 0 w (N - 1)" by auto
  have near: "\<forall>s k. reach ?E k s \<longrightarrow> k \<le> INT_MAX"
  proof (intro allI impI)
    fix s k assume "reach ?E k s"
    from chain_reach_only [OF N this] lim show "k \<le> INT_MAX" by (auto simp: INT_MAX_def)
  qed
  from sap_capped [OF v near] obtain res where
    run: "shortestAlternatingPaths N (chain_red N) (chain_blue N) = Inr res"
    and cap: "\<forall>i. 0 \<le> i \<longrightarrow> i < N \<longrightarrow> capped ?E i (res ! nat i)" by blast
  from cap N(1) have c: "capped ?E (N - 1) (res ! nat (N - 1))" by simp
  have "\<not> (\<exists>w. alternating_walk ?E 0 w (N - 1) \<and> int (length w) < INT_MAX)"
  proof
    assume "\<exists>w. alternating_walk ?E 0 w (N - 1) \<and> int (length w) < INT_MAX"
    then obtain w where w: "alternating_walk ?E 0 w (N - 1)" "int (length w) < INT_MAX" by blast
    with walk_iff_reach [OF tc, of "N - 1" "int (length w)"] obtain c where
      "reach ?E (int (length w)) (N - 1, c)" by blast
    from chain_last_only [OF N this] w(2) lim show False by simp
  qed
  with c have "res ! nat (N - 1) = - 1" by (simp add: capped_def)
  with run show "\<exists>res. shortestAlternatingPaths N (chain_red N) (chain_blue N) = Inr res \<and>
           res ! nat (N - 1) = - 1" by blast
qed

subsection \<open>The call on the store\<close>

lemma add_edges_ref_add_edges:
  "add_edges_ref color edges i (st, adj) =
     (case add_edges color adj (drop i (st edges)) of
        Inl err \<Rightarrow> Inl err
      | Inr adj' \<Rightarrow> Inr (st, adj'))"
proof (induction m \<equiv> "length (st edges) - i" arbitrary: i adj)
  case 0
  then have "\<not> i < length (st edges)" by simp
  then show ?case by (simp add: add_edges_ref.simps)
next
  case (Suc m)
  then have lt: "i < length (st edges)" and m: "m = length (st edges) - Suc i" by simp_all
  then have d: "drop i (st edges) = st edges ! i # drop (Suc i) (st edges)"
    by (simp add: Cons_nth_drop_Suc)
  show ?case
  proof (cases "add_edge color adj (st edges ! i)")
    case (Inl err)
    with lt d show ?thesis by (simp add: add_edges_ref.simps add_edge_ref_def)
  next
    case (Inr adj1)
    with lt d Suc.hyps(1) [OF m, of adj1] show ?thesis
      by (simp add: add_edges_ref.simps [of color edges i] add_edge_ref_def)
  qed
qed

lemma call_result:
  "shortestAlternatingPaths_call n redEdges blueEdges st =
     (case shortestAlternatingPaths n (st redEdges) (st blueEdges) of
        Inl err \<Rightarrow> Inl err
      | Inr res \<Rightarrow> Inr (res, st))"
  by (simp add: shortestAlternatingPaths_call_def shortestAlternatingPaths_def
      add_edges_ref_add_edges split: sum.splits prod.splits)

lemma call_cases:
  assumes v: "valid_input n (st redEdges) (st blueEdges)"
  shows "(\<exists>res. shortestAlternatingPaths_call n redEdges blueEdges st = Inr (res, st)) \<or>
         (shortestAlternatingPaths_call n redEdges blueEdges st = Inl SignedOverflow \<and> 2 ^ 30 < n)"
proof -
  from v have n1: "1 \<le> n" by (simp add: valid_input_def)
  from search_cases [OF v] obtain adj0 adj where
    b: "add_edges 0 (replicate (nat n) []) (st redEdges) = Inr adj0"
       "add_edges 1 adj0 (st blueEdges) = Inr adj"
    and c: "(\<exists>visited dist lst. bfs adj (initial_state n) = Inr (visited, dist, []) \<and>
               binv (colored_edges (st redEdges) (st blueEdges)) n lst [] (visited, dist, [])) \<or>
            (bfs adj (initial_state n) = Inl SignedOverflow \<and>
               overflows (colored_edges (st redEdges) (st blueEdges)) n)"
    by blast
  from c show ?thesis
  proof
    assume "\<exists>visited dist lst. bfs adj (initial_state n) = Inr (visited, dist, []) \<and>
               binv (colored_edges (st redEdges) (st blueEdges)) n lst [] (visited, dist, [])"
    then obtain visited dist where "bfs adj (initial_state n) = Inr (visited, dist, [])" by blast
    with b n1 have "shortestAlternatingPaths_call n redEdges blueEdges st =
        Inr (unreachable_to_minus_one dist, st)"
      by (simp add: call_result shortestAlternatingPaths_def)
    then show ?thesis by blast
  next
    assume o: "bfs adj (initial_state n) = Inl SignedOverflow \<and>
               overflows (colored_edges (st redEdges) (st blueEdges)) n"
    with b n1 have "shortestAlternatingPaths_call n redEdges blueEdges st = Inl SignedOverflow"
      by (simp add: call_result shortestAlternatingPaths_def)
    moreover from o have "2 ^ 30 < n" by (simp add: overflows_def INT_MAX_def)
    ultimately show ?thesis by blast
  qed
qed

definition two_vectors :: store where
  "two_vectors = (\<lambda>a. [])(0 := [[0, 1], [0, 2]], 1 := [[2, 1]])"

lemma two_vectors_call:
  "shortestAlternatingPaths_call 3 0 1 two_vectors = Inr ([0, 1, 1], two_vectors)"
proof -
  have "shortestAlternatingPaths 3 [[0, 1], [0, 2]] [[2, 1]] = Inr [0, 1, 1]" by code_simp
  then show ?thesis by (simp add: call_result two_vectors_def)
qed

definition moved_vectors :: store where
  "moved_vectors = (\<lambda>a. [[7, 7]])(5 := [[0, 1], [0, 2]], 2 := [[2, 1]])"

section \<open>The claims\<close>

text \<open>
  C1, as amended. For every input with \<open>n \<ge> 1\<close>, \<open>n \<le> 2^30\<close> and all edge endpoints in
  \<open>[0, n-1]\<close>, the function returns a sequence of \<open>n\<close> entries whose entry \<open>i\<close> is the least
  number of edges of a walk from node 0 to node \<open>i\<close> in which no two consecutive edges have
  the same colour, and \<open>-1\<close> when there is no such walk. Entry 0 is 0, and an entry
  \<open>d \<ge> 1\<close> is the length of an alternating walk to \<open>i\<close> that no alternating walk to \<open>i\<close>
  undercuts.
\<close>
theorem shortestAlternatingPaths_shortest:
  assumes "valid_input n redEdges blueEdges" and "n \<le> 2 ^ 30" and "0 \<le> i" and "i < n"
  shows "\<exists>res. shortestAlternatingPaths n redEdges blueEdges = Inr res \<and>
           length res = nat n \<and> res ! 0 = 0 \<and>
           (if \<exists>w. alternating_walk (colored_edges redEdges blueEdges) 0 w i
            then shortest_walk (colored_edges redEdges blueEdges) i (res ! nat i)
            else res ! nat i = - 1) \<and>
           (1 \<le> res ! nat i \<longrightarrow> shortest_walk (colored_edges redEdges blueEdges) i (res ! nat i))"
proof -
  let ?E = "colored_edges redEdges blueEdges"
  from sap_correct [OF assms(1,2)] obtain res where
    run: "shortestAlternatingPaths n redEdges blueEdges = Inr res" and len: "length res = nat n"
    and ex: "\<forall>i. 0 \<le> i \<longrightarrow> i < n \<longrightarrow> expected ?E i (res ! nat i)" by blast
  from assms(1) have "0 < n" by (simp add: valid_input_def)
  with ex have "expected ?E 0 (res ! nat 0)" by blast
  moreover have "alternating_walk ?E 0 [] 0" by simp
  then have "\<exists>w. alternating_walk ?E 0 w 0" ..
  ultimately have "shortest_walk ?E 0 (res ! 0)"
    by (simp add: expected_def)
  then have sw: "\<exists>w. alternating_walk ?E 0 w 0 \<and> int (length w) = res ! 0"
    "\<forall>w. alternating_walk ?E 0 w 0 \<longrightarrow> res ! 0 \<le> int (length w)"
    by (simp_all add: shortest_walk_def)
  from sw(1) have "0 \<le> res ! 0" by auto
  moreover from sw(2) \<open>alternating_walk ?E 0 [] 0\<close> have "res ! 0 \<le> int (length ([] :: cedge list))"
    by blast
  ultimately have zero: "res ! 0 = 0" by simp
  from ex assms(3,4) have i: "expected ?E i (res ! nat i)" by blast
  then have "1 \<le> res ! nat i \<longrightarrow> shortest_walk ?E i (res ! nat i)"
    by (auto simp: expected_def split: if_splits)
  with run len zero i show ?thesis by (auto simp: expected_def)
qed


text \<open>The theorem at \<open>n = 3\<close>, one red edge 0 to 1, one blue edge 1 to 2, node 2.\<close>
theorem shortestAlternatingPaths_shortest_witness:
  "valid_input 3 [[0, 1]] [[1, 2]] \<and> (3 :: int) \<le> 2 ^ 30 \<and> (0 :: int) \<le> 2 \<and> (2 :: int) < 3 \<and>
   (\<exists>res. shortestAlternatingPaths 3 [[0, 1]] [[1, 2]] = Inr res \<and>
      length res = nat 3 \<and> res ! 0 = 0 \<and>
      (if \<exists>w. alternating_walk (colored_edges [[0, 1]] [[1, 2]]) 0 w 2
       then shortest_walk (colored_edges [[0, 1]] [[1, 2]]) 2 (res ! nat 2)
       else res ! nat 2 = - 1) \<and>
      (1 \<le> res ! nat 2 \<longrightarrow> shortest_walk (colored_edges [[0, 1]] [[1, 2]]) 2 (res ! nat 2)))"
proof -
  have v: "valid_input 3 [[0, 1]] [[1, 2]]"
    by (simp add: valid_input_def endpoints_in_range_def)
  from shortestAlternatingPaths_shortest [OF v, of 2] v show ?thesis by simp
qed

text \<open>
  C1 as stated fails. On the chain of \<open>2^30 + 1\<close> nodes the shortest alternating walk to
  the last node has \<open>2^31 - 1\<close> edges, which is \<open>INT_MAX\<close>: the search stores it in
  \<open>dist\<close>, lines 63 to 67 take it for the mark of an unreached node, and the entry returned
  is \<open>-1\<close> although the walk exists.
\<close>
theorem sentinel_collision_counterexample:
  "valid_input 1073741825 (chain_red 1073741825) (chain_blue 1073741825) \<and>
   (\<exists>w. alternating_walk (colored_edges (chain_red 1073741825) (chain_blue 1073741825)) 0 w
          1073741824) \<and>
   (\<exists>res. shortestAlternatingPaths 1073741825 (chain_red 1073741825) (chain_blue 1073741825) =
            Inr res \<and> res ! nat 1073741824 = - 1)"
proof -
  have N: "(3 :: int) \<le> 1073741825" "odd (1073741825 :: int)" by simp_all
  have lim: "2 * 1073741825 - 3 = INT_MAX" by (simp add: INT_MAX_def)
  from chain_valid [OF N(1)] chain_collides [OF N lim] show ?thesis by simp
qed




text \<open>
  C3, as amended. The code validates nothing and reports nothing. For endpoints in range (and
  \<open>n \<le> 2^30\<close>) it returns \<open>n\<close> entries without any error. An edge with fewer than two
  elements or with a source outside \<open>[0, n-1]\<close> makes line 13 or 14 index out of bounds:
  undefined behaviour, not a reported invalid-argument condition.
\<close>
theorem no_endpoint_validation:
  "(valid_input n redEdges blueEdges \<and> n \<le> 2 ^ 30 \<longrightarrow>
      (\<exists>res. shortestAlternatingPaths n redEdges blueEdges = Inr res \<and> length res = nat n)) \<and>
   (0 \<le> n \<and> (\<exists>e \<in> set redEdges \<union> set blueEdges. length e < 2 \<or> e ! 0 < 0 \<or> n \<le> e ! 0) \<longrightarrow>
      shortestAlternatingPaths n redEdges blueEdges = Inl OutOfBounds)"
proof (intro conjI impI)
  assume "valid_input n redEdges blueEdges \<and> n \<le> 2 ^ 30"
  then have "valid_input n redEdges blueEdges" "n \<le> 2 ^ 30" by simp_all
  from sap_correct [OF this]
  show "\<exists>res. shortestAlternatingPaths n redEdges blueEdges = Inr res \<and> length res = nat n"
    by blast
next
  assume "0 \<le> n \<and> (\<exists>e \<in> set redEdges \<union> set blueEdges. length e < 2 \<or> e ! 0 < 0 \<or> n \<le> e ! 0)"
  then obtain e where "0 \<le> n" "e \<in> set redEdges \<union> set blueEdges"
    "length e < 2 \<or> e ! 0 < 0 \<or> n \<le> e ! 0" by blast
  then show "shortestAlternatingPaths n redEdges blueEdges = Inl OutOfBounds"
    by (rule sap_bad_source)
qed

text \<open>
  The two halves at \<open>n = 3\<close>: edges in range, and a red edge leaving node 5.
\<close>
theorem no_endpoint_validation_witness:
  "(valid_input 3 [[0, 1]] [[1, 2]] \<and> (3 :: int) \<le> 2 ^ 30) \<and>
   (\<exists>res. shortestAlternatingPaths 3 [[0, 1]] [[1, 2]] = Inr res \<and> length res = nat 3) \<and>
   ((0 :: int) \<le> 3 \<and> (\<exists>e \<in> set [[5, 0]] \<union> set []. length e < 2 \<or> e ! 0 < 0 \<or> (3 :: int) \<le> e ! 0)) \<and>
   shortestAlternatingPaths 3 [[5, 0]] [] = Inl OutOfBounds"
proof -
  have a: "valid_input 3 [[0, 1]] [[1, 2]] \<and> (3 :: int) \<le> 2 ^ 30"
    by (simp add: valid_input_def endpoints_in_range_def)
  have b: "(0 :: int) \<le> 3 \<and>
    (\<exists>e \<in> set [[5, 0]] \<union> set []. length e < 2 \<or> e ! 0 < 0 \<or> (3 :: int) \<le> e ! 0)"
    by simp
  from no_endpoint_validation [of 3 "[[0, 1]]" "[[1, 2]]"] a
  have 1: "\<exists>res. shortestAlternatingPaths 3 [[0, 1]] [[1, 2]] = Inr res \<and> length res = nat 3"
    by blast
  from no_endpoint_validation [of 3 "[[5, 0]]" "[]"] b
  have 2: "shortestAlternatingPaths 3 [[5, 0]] [] = Inl OutOfBounds" by blast
  from a 1 b 2 show ?thesis by blast
qed

text \<open>
  C3 as stated fails: the red edge from 1 to 5 has an endpoint outside \<open>[0, 2]\<close>, node 1
  is never reached, the destination 5 is never used as an index, and the distances are
  returned as for the graph without that edge.
\<close>
theorem out_of_range_destination_counterexample:
  "\<not> endpoints_in_range 3 [[1, 5]] \<and>
   shortestAlternatingPaths 3 [[1, 5]] [] = Inr [0, - 1, - 1]"
proof -
  have "\<not> endpoints_in_range 3 [[1, 5]]" by (simp add: endpoints_in_range_def)
  moreover have "shortestAlternatingPaths 3 [[1, 5]] [] = Inr [0, - 1, - 1]" by code_simp
  ultimately show ?thesis by simp
qed

text \<open>
  C4, as amended. For every valid input with \<open>n \<le> 2^30\<close>, cycles, self-loops and
  duplicate edges included, the loop ends with the queue empty: the function returns,
  everything pushed has been popped, and at most \<open>2n\<close> entries were ever pushed, the two
  seeds included.
\<close>
theorem search_terminates_within_2n_pushes:
  assumes "valid_input n redEdges blueEdges" and "n \<le> 2 ^ 30"
  shows "\<exists>res visited h.
           shortestAlternatingPaths_history n redEdges blueEdges = Inr (res, visited, h) \<and>
           shortestAlternatingPaths n redEdges blueEdges = Inr res \<and>
           popped h = pushed h \<and> int (length (pushed h)) \<le> 2 * n"
  using history_ok [OF assms] by blast

text \<open>
  Three nodes, a duplicate red edge, a red and a blue self-loop at node 1, and cycles
  through node 0.
\<close>
theorem search_terminates_within_2n_pushes_witness:
  "valid_input 3 [[0, 1], [0, 1], [1, 1], [1, 2], [2, 0]] [[1, 1], [2, 0]] \<and> (3 :: int) \<le> 2 ^ 30 \<and>
   (\<exists>res visited h.
      shortestAlternatingPaths_history 3 [[0, 1], [0, 1], [1, 1], [1, 2], [2, 0]] [[1, 1], [2, 0]] =
        Inr (res, visited, h) \<and>
      shortestAlternatingPaths 3 [[0, 1], [0, 1], [1, 1], [1, 2], [2, 0]] [[1, 1], [2, 0]] = Inr res \<and>
      popped h = pushed h \<and> int (length (pushed h)) \<le> 2 * 3)"
proof -
  have v: "valid_input 3 [[0, 1], [0, 1], [1, 1], [1, 2], [2, 0]] [[1, 1], [2, 0]]"
    by (simp add: valid_input_def endpoints_in_range_def)
  from search_terminates_within_2n_pushes [OF v] v show ?thesis by simp
qed

text \<open>
  C4 as stated fails. On the chain of \<open>2^30 + 3\<close> nodes the search pops an entry at distance
  \<open>INT_MAX\<close> whose successor is new, and \<open>currentDistance + 1\<close> overflows: the behaviour is
  undefined, and the function does not come to return.
\<close>
theorem search_overflow_counterexample:
  "valid_input 1073741827 (chain_red 1073741827) (chain_blue 1073741827) \<and>
   shortestAlternatingPaths 1073741827 (chain_red 1073741827) (chain_blue 1073741827) =
     Inl SignedOverflow \<and>
   shortestAlternatingPaths_history 1073741827 (chain_red 1073741827) (chain_blue 1073741827) =
     Inl SignedOverflow"
proof -
  have N: "(3 :: int) \<le> 1073741827" "odd (1073741827 :: int)" by simp_all
  have big: "INT_MAX < 2 * 1073741827 - 3" by (simp add: INT_MAX_def)
  from chain_valid [OF N(1)] chain_overflows(1,2) [OF N big] show ?thesis by simp
qed







text \<open>
  C7, as amended. For every valid input with \<open>n \<le> 2^30\<close> each of the \<open>n\<close> entries returned
  is \<open>-1\<close> or a non-negative integer, and never \<open>INT_MAX\<close>.
\<close>
theorem output_entries_in_range:
  assumes "valid_input n redEdges blueEdges" and "n \<le> 2 ^ 30"
  shows "\<exists>res. shortestAlternatingPaths n redEdges blueEdges = Inr res \<and> length res = nat n \<and>
           (\<forall>i < length res. res ! i = - 1 \<or> (0 \<le> res ! i \<and> res ! i < INT_MAX))"
proof -
  from assms(1) have n1: "1 \<le> n" by (simp add: valid_input_def)
  from search_ok [OF assms] obtain adj0 adj visited dist lst where
    b: "add_edges 0 (replicate (nat n) []) redEdges = Inr adj0"
       "add_edges 1 adj0 blueEdges = Inr adj"
    and run: "bfs adj (initial_state n) = Inr (visited, dist, [])"
    and inv: "binv (colored_edges redEdges blueEdges) n lst [] (visited, dist, [])" by blast
  let ?res = "unreachable_to_minus_one dist"
  from b run n1 have 1: "shortestAlternatingPaths n redEdges blueEdges = Inr ?res"
    by (simp add: shortestAlternatingPaths_def)
  from inv have 2: "length ?res = nat n"
    by (simp add: binv_def shape_def unreachable_to_minus_one_def)
  have 3: "?res ! i = - 1 \<or> (0 \<le> ?res ! i \<and> ?res ! i < INT_MAX)" if "i < length ?res" for i
  proof -
    from that 2 have "0 \<le> int i" "int i < n" by simp_all
    from final_range [OF inv graph_ok_two_colors [OF colored_edges_ok [OF assms(1)]] this]
    show ?thesis by simp
  qed
  from 1 2 3 show ?thesis by blast
qed

text \<open>
  A graph with an unreachable node.
\<close>
theorem output_entries_in_range_witness:
  "valid_input 3 [[0, 1]] [[2, 1]] \<and> (3 :: int) \<le> 2 ^ 30 \<and>
   (\<exists>res. shortestAlternatingPaths 3 [[0, 1]] [[2, 1]] = Inr res \<and> length res = nat 3 \<and>
      (\<forall>i < length res. res ! i = - 1 \<or> (0 \<le> res ! i \<and> res ! i < INT_MAX)))"
proof -
  have v: "valid_input 3 [[0, 1]] [[2, 1]]"
    by (simp add: valid_input_def endpoints_in_range_def)
  from output_entries_in_range [OF v] v show ?thesis by simp
qed

text \<open>
  C7 as stated fails. On the chain of \<open>2^30 + 3\<close> nodes \<open>currentDistance + 1\<close> overflows:
  the behaviour is undefined and no range of the entries is guaranteed.
\<close>
theorem output_entries_counterexample:
  "valid_input 1073741827 (chain_red 1073741827) (chain_blue 1073741827) \<and>
   shortestAlternatingPaths 1073741827 (chain_red 1073741827) (chain_blue 1073741827) =
     Inl SignedOverflow"
proof -
  have N: "(3 :: int) \<le> 1073741827" "odd (1073741827 :: int)" by simp_all
  have big: "INT_MAX < 2 * 1073741827 - 3" by (simp add: INT_MAX_def)
  from chain_valid [OF N(1)] chain_overflows(1) [OF N big] show ?thesis by simp
qed

text \<open>
  C8. A call keeps nothing from one invocation to the next. When a call returns, the same
  call made again in the store it left returns the same sequence; and so does a call in
  any other store, at any other addresses, whose two vectors hold the same contents.
\<close>
theorem second_call_same_result:
  "(shortestAlternatingPaths_call n redEdges blueEdges st = Inr (res, st') \<longrightarrow>
      shortestAlternatingPaths_call n redEdges blueEdges st' = Inr (res, st')) \<and>
   (shortestAlternatingPaths_call n redEdges blueEdges st = Inr (res, st') \<and>
    st2 redEdges2 = st redEdges \<and> st2 blueEdges2 = st blueEdges \<longrightarrow>
      shortestAlternatingPaths_call n redEdges2 blueEdges2 st2 = Inr (res, st2))"
proof (intro conjI impI)
  assume a: "shortestAlternatingPaths_call n redEdges blueEdges st = Inr (res, st')"
  then have "st' = st" by (auto simp: call_result split: sum.splits)
  with a show "shortestAlternatingPaths_call n redEdges blueEdges st' = Inr (res, st')" by simp
next
  assume a: "shortestAlternatingPaths_call n redEdges blueEdges st = Inr (res, st') \<and>
    st2 redEdges2 = st redEdges \<and> st2 blueEdges2 = st blueEdges"
  then have "shortestAlternatingPaths n (st redEdges) (st blueEdges) = Inr res"
    by (auto simp: call_result split: sum.splits)
  with a show "shortestAlternatingPaths_call n redEdges2 blueEdges2 st2 = Inr (res, st2)"
    by (simp add: call_result)
qed

text \<open>
  A first call, and a call on copies of the two vectors held elsewhere in another store.
\<close>
theorem second_call_same_result_witness:
  "shortestAlternatingPaths_call 3 0 1 two_vectors = Inr ([0, 1, 1], two_vectors) \<and>
   moved_vectors 5 = two_vectors 0 \<and> moved_vectors 2 = two_vectors 1 \<and>
   shortestAlternatingPaths_call 3 5 2 moved_vectors = Inr ([0, 1, 1], moved_vectors)"
proof -
  have m: "moved_vectors 5 = two_vectors 0" "moved_vectors 2 = two_vectors 1"
    by (simp_all add: moved_vectors_def two_vectors_def)
  from second_call_same_result [of 3 0 1 two_vectors "[0, 1, 1]" two_vectors moved_vectors 5 2]
    two_vectors_call m
  show ?thesis by simp
qed

text \<open>
  C9. When the call returns, the store is the store it was given: \<open>redEdges\<close> and
  \<open>blueEdges\<close>, and every other vector of the caller, hold what they held before. On a
  valid input the call does return, unless \<open>currentDistance + 1\<close> overflows, which takes
  more than \<open>2^30\<close> nodes.
\<close>
theorem inputs_unchanged:
  "(shortestAlternatingPaths_call n redEdges blueEdges st = Inr (res, st') \<longrightarrow>
      st' = st \<and> st' redEdges = st redEdges \<and> st' blueEdges = st blueEdges) \<and>
   (valid_input n (st redEdges) (st blueEdges) \<longrightarrow>
      (\<exists>res. shortestAlternatingPaths_call n redEdges blueEdges st = Inr (res, st)) \<or>
      (shortestAlternatingPaths_call n redEdges blueEdges st = Inl SignedOverflow \<and> 2 ^ 30 < n))"
proof (intro conjI impI)
  assume "shortestAlternatingPaths_call n redEdges blueEdges st = Inr (res, st')"
  then have "st' = st" by (auto simp: call_result split: sum.splits)
  then show "st' = st" "st' redEdges = st redEdges" "st' blueEdges = st blueEdges" by simp_all
next
  assume "valid_input n (st redEdges) (st blueEdges)"
  then show "(\<exists>res. shortestAlternatingPaths_call n redEdges blueEdges st = Inr (res, st)) \<or>
      (shortestAlternatingPaths_call n redEdges blueEdges st = Inl SignedOverflow \<and> 2 ^ 30 < n)"
    by (rule call_cases)
qed

text \<open>
  Two vectors at the addresses 0 and 1.
\<close>
theorem inputs_unchanged_witness:
  "shortestAlternatingPaths_call 3 0 1 two_vectors = Inr ([0, 1, 1], two_vectors) \<and>
   two_vectors 0 = [[0, 1], [0, 2]] \<and> two_vectors 1 = [[2, 1]] \<and>
   valid_input 3 (two_vectors 0) (two_vectors 1) \<and>
   ((\<exists>res. shortestAlternatingPaths_call 3 0 1 two_vectors = Inr (res, two_vectors)) \<or>
    (shortestAlternatingPaths_call 3 0 1 two_vectors = Inl SignedOverflow \<and> (2 :: int) ^ 30 < 3))"
proof -
  have v: "valid_input 3 (two_vectors 0) (two_vectors 1)"
    by (simp add: valid_input_def endpoints_in_range_def two_vectors_def)
  from inputs_unchanged [of 3 0 1 two_vectors "[0, 1, 1]" two_vectors] v two_vectors_call
  show ?thesis by (simp add: two_vectors_def)
qed




end
